theory Spec2Isabelle
  imports Complex_Main "HOL-Library.Multiset"
begin

section \<open>Particle swarm optimiser: the data model\<close>

text \<open>
  The embedding follows \<^verbatim>\<open>Coursework/PSO/pswarm.py\<close>. Floating point numbers are
  rendered as \<^typ>\<open>real\<close>, numpy vectors as \<^typ>\<open>real list\<close>. An exception is a value:
  every phase of the optimiser returns either \<open>Inr\<close> of the state it leaves, or
  \<open>Inl\<close> of the exception together with the state at the moment it was raised
  (Python does not roll a mutation back).

  The two random generators are explicit. \<^verbatim>\<open>random.random()\<close> is a stream
  \<open>U :: nat \<Rightarrow> real\<close> of unit draws, and the state field \<open>rng_pos\<close> counts the draws
  consumed so far, so that every call reads a stream element no earlier call has read.
  \<^verbatim>\<open>np.random.choice(pool, k, replace=False)\<close> is the first \<open>k\<close> elements of a
  rearrangement \<open>perm c pool\<close> of the pool, where \<open>c\<close> numbers the calls.
\<close>

datatype error = ValueError | NotImplementedError | IndexError | AttributeError | TypeError

datatype BoundaryPolicy = RANDOMREINIT | REFUSE | BOUNCE

text \<open>
  Modelled from the spec: \<^verbatim>\<open>FitnessLoc\<close> is imported from the module
  \<^verbatim>\<open>psobehaviour\<close>, which is not among the source files. The spec describes it as the
  pair of a location vector and its fitness, ordered by fitness only, the location being
  payload.
\<close>

record FitnessLoc =
  location :: "real list"
  fitness :: real

text \<open>
  Modelled from the spec: the comparisons \<^verbatim>\<open>a > b\<close> and \<^verbatim>\<open>a < b\<close> of two
  \<^verbatim>\<open>FitnessLoc\<close> values (the class is not among the source files) look at the fitness
  only and are strict.
\<close>

definition FitnessLoc_gt :: "FitnessLoc \<Rightarrow> FitnessLoc \<Rightarrow> bool" where
  "FitnessLoc_gt a b = (fitness b < fitness a)"

definition FitnessLoc_lt :: "FitnessLoc \<Rightarrow> FitnessLoc \<Rightarrow> bool" where
  "FitnessLoc_lt a b = (fitness a < fitness b)"

text \<open>
  A particle. Its informants are references to other particles of the swarm; the swarm is
  a list that is never reordered during a run, so a reference is the index of the
  particle in \<open>particles\<close>, and reading \<^verbatim>\<open>informant.fitness_loc\<close> reads the swarm at
  that index. \<open>fitness_loc\<close> and \<open>personal_fittest_loc\<close> are \<^verbatim>\<open>None\<close> until the first
  assessment. The field \<^verbatim>\<open>fitness_fn\<close> of a particle is called \<open>p_fitness_fn\<close> here (the
  optimiser has a field of the same name); the function is taken to be pure and total.
  \<open>velocity_list\<close> is the diagnostic history.
\<close>

record Particle =
  position :: "real list"
  velocity :: "real list"
  fitness_loc :: "FitnessLoc option"
  p_fitness_fn :: "real list \<Rightarrow> real"
  personal_fittest_loc :: "FitnessLoc option"
  informants :: "nat list"
  velocity_list :: "real list list"

text \<open>
  The optimiser. \<open>max_iter\<close> is the entry of \<^verbatim>\<open>termination_args\<close> that the run reads;
  \<open>rng_pos\<close> and \<open>choice_pos\<close> are the positions of the two random generators (state of
  the modules \<^verbatim>\<open>random\<close> and \<^verbatim>\<open>numpy.random\<close>, kept here with the rest of the state).
  \<^verbatim>\<open>particles = None\<close> of a fresh optimiser is the empty list: the phases are reached
  through \<open>run\<close> only, which assigns the list first.
\<close>

record PSO =
  swarm_size :: int
  boundary :: "real \<times> real"
  alpha :: real
  beta :: real
  gamma :: real
  delta :: real
  epsilon :: real
  boundary_policy :: BoundaryPolicy
  max_iter :: int
  search_dimension :: "(real \<times> real) list option"
  search_dimension_set :: bool
  best :: "FitnessLoc option"
  previous_best :: "FitnessLoc option"
  particles :: "Particle list"
  num_informants :: int
  fitness_fn :: "(real list \<Rightarrow> real) option"
  rng_pos :: nat
  choice_pos :: nat

type_synonym outcome = "(error \<times> PSO) + PSO"

text \<open>The state a phase leaves behind, whether it returned or raised.\<close>

fun final_state :: "outcome \<Rightarrow> PSO" where
  "final_state (Inl (e, s)) = s"
| "final_state (Inr s) = s"

subsection \<open>Library functions the code calls\<close>

text \<open>\<^verbatim>\<open>random.uniform(a, b)\<close> is \<^verbatim>\<open>a + (b - a) * random()\<close>.\<close>

definition uniform :: "real \<Rightarrow> real \<Rightarrow> real \<Rightarrow> real" where
  "uniform a b u = a + (b - a) * u"

text \<open>\<^verbatim>\<open>any(v != 0)\<close> on a vector.\<close>

definition any_nonzero :: "real list \<Rightarrow> bool" where
  "any_nonzero v = list_ex (\<lambda>x. x \<noteq> 0) v"

text \<open>Indexing a list or a one-dimensional array with a non-negative index.\<close>

definition getitem :: "'a list \<Rightarrow> nat \<Rightarrow> error + 'a" where
  "getitem xs i = (if i < length xs then Inr (xs ! i) else Inl IndexError)"

text \<open>
  The sum of two one-dimensional arrays: element by element when the lengths agree, a
  one-element array is broadcast, any other pair of shapes is a \<^verbatim>\<open>ValueError\<close>.
\<close>

definition np_add :: "real list \<Rightarrow> real list \<Rightarrow> error + real list" where
  "np_add a b =
     (if length a = length b then Inr (map2 (+) a b)
      else if length a = 1 then Inr (map (\<lambda>y. hd a + y) b)
      else if length b = 1 then Inr (map (\<lambda>x. x + hd b) a)
      else Inl ValueError)"

text \<open>
  The product of a scalar and an array. The numbers of the model are real: the product is
  the program's on finite values only. A component that has overflowed to \<^verbatim>\<open>inf\<close> (or
  is \<^verbatim>\<open>NaN\<close>) has no counterpart here, and in the program \<^verbatim>\<open>0.0 * inf\<close> is \<^verbatim>\<open>NaN\<close>, not
  zero: a statement that depends on the product of such a component is stated for
  components within the range of the number format (\<open>finite64\<close> below).
\<close>

definition np_scale :: "real \<Rightarrow> real list \<Rightarrow> real list" where
  "np_scale c v = map (\<lambda>x. c * x) v"

section \<open>Particle\<close>

definition update_position :: "Particle \<Rightarrow> real list \<Rightarrow> Particle" where
  "update_position p new_position = p\<lparr>position := new_position\<rparr>"

definition update_velocity :: "Particle \<Rightarrow> real list \<Rightarrow> Particle" where
  "update_velocity p new_velocity = p\<lparr>velocity := new_velocity\<rparr>"

definition set_informants :: "Particle \<Rightarrow> nat list \<Rightarrow> Particle" where
  "set_informants p js = p\<lparr>informants := js\<rparr>"

text \<open>
  \<^verbatim>\<open>Particle.assess_fitness\<close>: the new \<^verbatim>\<open>FitnessLoc\<close> holds a copy of the position; the
  personal best is set when there is none, then replaced on a strictly greater fitness.
  The result is the changed particle and the value returned.
\<close>

definition assess_fitness :: "Particle \<Rightarrow> Particle \<times> FitnessLoc" where
  "assess_fitness p =
     (let fl = \<lparr>location = position p, fitness = p_fitness_fn p (position p)\<rparr>;
          p1 = p\<lparr>fitness_loc := Some fl\<rparr>;
          p2 = (case personal_fittest_loc p1 of
                  None \<Rightarrow> p1\<lparr>personal_fittest_loc := Some fl\<rparr>
                | Some _ \<Rightarrow> p1);
          p3 = (case personal_fittest_loc p2 of
                  None \<Rightarrow> p2
                | Some pb \<Rightarrow>
                    if FitnessLoc_gt fl pb then p2\<lparr>personal_fittest_loc := Some fl\<rparr> else p2)
      in (p3, fl))"

section \<open>The three phases of an iteration\<close>

text \<open>
  \<^verbatim>\<open>for particle in self.particles:\<close> runs its body for the particles in the order of
  the list, each body on the state the one before left; an exception ends the loop.
\<close>

fun for_each :: "(PSO \<Rightarrow> nat \<Rightarrow> outcome) \<Rightarrow> nat list \<Rightarrow> PSO \<Rightarrow> outcome" where
  "for_each body [] s = Inr s"
| "for_each body (k # ks) s =
     (case body s k of
        Inl x \<Rightarrow> Inl x
      | Inr s' \<Rightarrow> for_each body ks s')"

text \<open>
  The test \<^verbatim>\<open>not any(particle.velocity != 0)\<close> that opens the body of every phase: the
  particle is skipped (\<^verbatim>\<open>continue\<close>) when it holds.
\<close>

definition frozen :: "Particle \<Rightarrow> bool" where
  "frozen p = (\<not> any_nonzero (velocity p))"

subsection \<open>Assessment\<close>

text \<open>The body of the loop of \<^verbatim>\<open>PSO._pso_assess_fitness\<close>, for the particle at index \<open>k\<close>.\<close>

definition assess_one :: "PSO \<Rightarrow> nat \<Rightarrow> outcome" where
  "assess_one s k =
     (let particle = particles s ! k in
      if frozen particle then Inr s
      else
        (let (particle', f) = assess_fitness particle;
             s1 = s\<lparr>particles := (particles s)[k := particle']\<rparr>
         in if (case best s1 of None \<Rightarrow> True | Some b \<Rightarrow> FitnessLoc_gt f b)
            then Inr (s1\<lparr>previous_best := best s1, best := Some f\<rparr>)
            else Inr s1))"

definition pso_assess_fitness :: "PSO \<Rightarrow> outcome" where
  "pso_assess_fitness s = for_each assess_one [0..<length (particles s)] s"

subsection \<open>Velocity update\<close>

definition sentinel :: FitnessLoc where
  "sentinel = \<lparr>location = [], fitness = - 999999\<rparr>"

text \<open>
  The scan for the fittest informant: the running best starts at the sentinel and is
  replaced only by a strictly fitter \<^verbatim>\<open>fitness_loc\<close>. Comparing with the
  \<^verbatim>\<open>fitness_loc = None\<close> of an informant that was never assessed reads an attribute of
  \<^verbatim>\<open>None\<close>. An index outside the swarm stands for no reference at all and cannot arise.
\<close>

fun informant_scan :: "Particle list \<Rightarrow> nat list \<Rightarrow> FitnessLoc \<Rightarrow> error + FitnessLoc" where
  "informant_scan ps [] fittest = Inr fittest"
| "informant_scan ps (j # js) fittest =
     (if j < length ps then
        (case fitness_loc (ps ! j) of
           None \<Rightarrow> Inl AttributeError
         | Some fl \<Rightarrow> informant_scan ps js (if FitnessLoc_lt fittest fl then fl else fittest))
      else Inl IndexError)"

text \<open>
  The right-hand side of the assignment to \<^verbatim>\<open>velocity[i]\<close>, its operands read in the
  order Python evaluates them.
\<close>

definition velocity_component ::
  "PSO \<Rightarrow> Particle \<Rightarrow> FitnessLoc \<Rightarrow> real list \<Rightarrow> nat \<Rightarrow> real \<Rightarrow> real \<Rightarrow> real \<Rightarrow> error + real" where
  "velocity_component s particle inf_best v i b c d =
     (case getitem v i of Inl e \<Rightarrow> Inl e | Inr vi \<Rightarrow>
     (case personal_fittest_loc particle of None \<Rightarrow> Inl AttributeError | Some pb \<Rightarrow>
     (case getitem (location pb) i of Inl e \<Rightarrow> Inl e | Inr pbi \<Rightarrow>
     (case getitem (position particle) i of Inl e \<Rightarrow> Inl e | Inr xi \<Rightarrow>
     (case getitem (location inf_best) i of Inl e \<Rightarrow> Inl e | Inr ibi \<Rightarrow>
     (case best s of None \<Rightarrow> Inl AttributeError | Some g \<Rightarrow>
     (case getitem (location g) i of Inl e \<Rightarrow> Inl e | Inr gi \<Rightarrow>
        Inr (alpha s * vi + b * (pbi - xi) + c * (ibi - xi) + d * (gi - xi)))))))))"

text \<open>
  The loop over the dimensions: three draws, then the assignment. The result is the
  vector and the position of the generator; a raise leaves the vector as far as it was
  written.
\<close>

fun velocity_loop ::
  "(nat \<Rightarrow> real) \<Rightarrow> PSO \<Rightarrow> Particle \<Rightarrow> FitnessLoc \<Rightarrow> nat list \<Rightarrow> real list \<Rightarrow> nat
     \<Rightarrow> (error \<times> real list \<times> nat) + (real list \<times> nat)" where
  "velocity_loop U s particle inf_best [] v r = Inr (v, r)"
| "velocity_loop U s particle inf_best (i # is) v r =
     (let b = uniform 0 (beta s) (U r);
          c = uniform 0 (gamma s) (U (r + 1));
          d = uniform 0 (delta s) (U (r + 2))
      in case velocity_component s particle inf_best v i b c d of
           Inl e \<Rightarrow> Inl (e, v, r + 3)
         | Inr x \<Rightarrow> velocity_loop U s particle inf_best is (v[i := x]) (r + 3))"

text \<open>
  The body of the loop of \<^verbatim>\<open>PSO._update_particle\<close>. The copy of the velocity is
  appended to the history before it is written, and it is the same array that then
  becomes the velocity: the entry of the history shows the components as they are
  written.
\<close>

definition update_one :: "(nat \<Rightarrow> real) \<Rightarrow> PSO \<Rightarrow> nat \<Rightarrow> outcome" where
  "update_one U s k =
     (let particle = particles s ! k;
          logged = (\<lambda>v. particle\<lparr>velocity_list := velocity_list particle @ [v]\<rparr>)
      in
      if frozen particle then Inr s
      else
        (case informant_scan (particles s) (informants particle) sentinel of
           Inl e \<Rightarrow> Inl (e, s\<lparr>particles := (particles s)[k := logged (velocity particle)]\<rparr>)
         | Inr inf_best \<Rightarrow>
            (case search_dimension s of
               None \<Rightarrow>
                 Inl (TypeError, s\<lparr>particles := (particles s)[k := logged (velocity particle)]\<rparr>)
             | Some dims \<Rightarrow>
                (case velocity_loop U s particle inf_best [0..<length dims]
                        (velocity particle) (rng_pos s) of
                   Inl (e, v, r) \<Rightarrow>
                     Inl (e, s\<lparr>particles := (particles s)[k := logged v], rng_pos := r\<rparr>)
                 | Inr (v, r) \<Rightarrow>
                     Inr (s\<lparr>particles := (particles s)[k := update_velocity (logged v) v],
                            rng_pos := r\<rparr>)))))"

definition update_particle :: "(nat \<Rightarrow> real) \<Rightarrow> PSO \<Rightarrow> outcome" where
  "update_particle U s = for_each (update_one U) [0..<length (particles s)] s"

subsection \<open>Movement\<close>

text \<open>
  The loop over \<^verbatim>\<open>enumerate(self.search_dimension)\<close>. A coordinate of the candidate
  that fails the test \<^verbatim>\<open>d[0] <= temp_position[index] <= d[1]\<close> is treated by the
  boundary policy; \<^verbatim>\<open>BOUNCE\<close> raises, and the two assignments after the raise are never
  reached.
\<close>

fun boundary_loop ::
  "(nat \<Rightarrow> real) \<Rightarrow> BoundaryPolicy \<Rightarrow> real list \<Rightarrow> (nat \<times> real \<times> real) list \<Rightarrow> real list \<Rightarrow> nat
     \<Rightarrow> (error \<times> nat) + (real list \<times> nat)" where
  "boundary_loop U pol pos [] temp r = Inr (temp, r)"
| "boundary_loop U pol pos ((index, d) # ds) temp r =
     (if index < length temp then
        (if \<not> (fst d \<le> temp ! index \<and> temp ! index \<le> snd d) then
           (case pol of
              BOUNCE \<Rightarrow> Inl (NotImplementedError, r)
            | RANDOMREINIT \<Rightarrow>
                boundary_loop U pol pos ds (temp[index := uniform (fst d) (snd d) (U r)]) (Suc r)
            | REFUSE \<Rightarrow>
                (if index < length pos
                 then boundary_loop U pol pos ds (temp[index := pos ! index]) r
                 else Inl (IndexError, r)))
         else boundary_loop U pol pos ds temp r)
      else Inl (IndexError, r))"

text \<open>
  The candidate \<^verbatim>\<open>particle.position + (self.epsilon*particle.velocity)\<close> and its
  treatment at the bounds: the position the particle is given, and the generator.
\<close>

definition move_position ::
  "(nat \<Rightarrow> real) \<Rightarrow> PSO \<Rightarrow> Particle \<Rightarrow> nat \<Rightarrow> (error \<times> nat) + (real list \<times> nat)" where
  "move_position U s particle r =
     (case np_add (position particle) (np_scale (epsilon s) (velocity particle)) of
        Inl e \<Rightarrow> Inl (e, r)
      | Inr temp_position \<Rightarrow>
          (case search_dimension s of
             None \<Rightarrow> Inl (TypeError, r)
           | Some dims \<Rightarrow>
               boundary_loop U (boundary_policy s) (position particle)
                 (enumerate 0 dims) temp_position r))"

text \<open>The body of the loop of \<^verbatim>\<open>PSO._move_particles\<close>.\<close>

definition move_one :: "(nat \<Rightarrow> real) \<Rightarrow> PSO \<Rightarrow> nat \<Rightarrow> outcome" where
  "move_one U s k =
     (let particle = particles s ! k in
      if frozen particle then Inr s
      else
        (case move_position U s particle (rng_pos s) of
           Inl (e, r) \<Rightarrow> Inl (e, s\<lparr>rng_pos := r\<rparr>)
         | Inr (t, r) \<Rightarrow>
             Inr (s\<lparr>particles := (particles s)[k := update_position particle t],
                    rng_pos := r\<rparr>)))"

definition move_particles :: "(nat \<Rightarrow> real) \<Rightarrow> PSO \<Rightarrow> outcome" where
  "move_particles U s = for_each (move_one U) [0..<length (particles s)] s"

section \<open>Configuration and instantiation\<close>

text \<open>
  \<^verbatim>\<open>PSO.__init__\<close> with the arguments the run reads, and the optimiser built from the
  default values of the arguments.
\<close>

definition PSO_init ::
  "int \<Rightarrow> int \<Rightarrow> real \<times> real \<Rightarrow> real \<Rightarrow> real \<Rightarrow> real \<Rightarrow> real \<Rightarrow> real \<Rightarrow> BoundaryPolicy \<Rightarrow> int \<Rightarrow> PSO" where
  "PSO_init n_particles informants_count bound a b c d e policy iterations =
     \<lparr>swarm_size = n_particles, boundary = bound, alpha = a, beta = b, gamma = c, delta = d,
      epsilon = e, boundary_policy = policy, max_iter = iterations,
      search_dimension = None, search_dimension_set = False, best = None,
      previous_best = Some sentinel, particles = [], num_informants = informants_count,
      fitness_fn = None, rng_pos = 0, choice_pos = 0\<rparr>"

definition PSO_default :: PSO where
  "PSO_default = PSO_init 10 6 (1, - 1) (1 / 10) (13 / 10) (14 / 10) (13 / 10) (1 / 10) RANDOMREINIT 1000000"

definition set_fitness_fn :: "PSO \<Rightarrow> (real list \<Rightarrow> real) \<Rightarrow> PSO" where
  "set_fitness_fn s fitness_function = s\<lparr>fitness_fn := Some fitness_function\<rparr>"

text \<open>
  \<^verbatim>\<open>PSO.set_search_dimensions\<close>: the argument is an integer, a list of bound pairs, or
  anything else.
\<close>

datatype dimensions = DimInt int | DimList "(real \<times> real) list" | DimOther

definition set_search_dimensions :: "PSO \<Rightarrow> dimensions \<Rightarrow> outcome" where
  "set_search_dimensions s dims =
     (case dims of
        DimInt n \<Rightarrow>
          Inr (s\<lparr>search_dimension := Some (replicate (nat n) (boundary s)),
                 search_dimension_set := True\<rparr>)
      | DimList ds \<Rightarrow> Inr (s\<lparr>search_dimension := Some ds, search_dimension_set := True\<rparr>)
      | DimOther \<Rightarrow> Inl (ValueError, s\<lparr>search_dimension_set := False\<rparr>))"

text \<open>
  \<^verbatim>\<open>PSO._init_position\<close> and \<^verbatim>\<open>PSO._init_velocity\<close> have the same body: one draw
  between the two bounds of every dimension, in order.
\<close>

fun init_position :: "(nat \<Rightarrow> real) \<Rightarrow> (real \<times> real) list \<Rightarrow> nat \<Rightarrow> real list \<times> nat" where
  "init_position U [] r = ([], r)"
| "init_position U (d # ds) r =
     (let (xs, r') = init_position U ds (Suc r) in (uniform (fst d) (snd d) (U r) # xs, r'))"

definition init_velocity :: "(nat \<Rightarrow> real) \<Rightarrow> (real \<times> real) list \<Rightarrow> nat \<Rightarrow> real list \<times> nat" where
  "init_velocity U ds r = init_position U ds r"

text \<open>\<^verbatim>\<open>Particle.__init__\<close>; the informants are assigned by the wiring that follows.\<close>

definition Particle_init :: "real list \<Rightarrow> real list \<Rightarrow> (real list \<Rightarrow> real) \<Rightarrow> Particle" where
  "Particle_init pos vel f =
     \<lparr>position = pos, velocity = vel, fitness_loc = None, p_fitness_fn = f,
      personal_fittest_loc = None, informants = [], velocity_list = []\<rparr>"

fun make_particles ::
  "(nat \<Rightarrow> real) \<Rightarrow> (real \<times> real) list \<Rightarrow> (real list \<Rightarrow> real) \<Rightarrow> nat \<Rightarrow> nat \<Rightarrow> Particle list \<times> nat" where
  "make_particles U ds f 0 r = ([], r)"
| "make_particles U ds f (Suc n) r =
     (let (pos, r1) = init_position U ds r;
          (vel, r2) = init_velocity U ds r1;
          (ps, r3) = make_particles U ds f n r2
      in (Particle_init pos vel f # ps, r3))"

text \<open>
  \<^verbatim>\<open>np.random.choice(pool, k, replace=False)\<close>: a sample larger than the pool, or of
  negative size, is a \<^verbatim>\<open>ValueError\<close>.
\<close>

definition random_choice ::
  "(nat \<Rightarrow> nat list \<Rightarrow> nat list) \<Rightarrow> nat \<Rightarrow> nat list \<Rightarrow> int \<Rightarrow> error + nat list" where
  "random_choice perm c pool k =
     (if k < 0 \<or> int (length pool) < k then Inl ValueError
      else Inr (take (nat k) (perm c pool)))"

text \<open>
  \<^verbatim>\<open>PSO._init_informants\<close>. \<^verbatim>\<open>Particle\<close> defines no equality, so the comparison
  \<^verbatim>\<open>np.array(self.particles) == particle\<close> is identity and the pool is the swarm without
  the particle itself.
\<close>

definition informants_one :: "(nat \<Rightarrow> nat list \<Rightarrow> nat list) \<Rightarrow> PSO \<Rightarrow> nat \<Rightarrow> outcome" where
  "informants_one perm s k =
     (let no_self = filter (\<lambda>j. j \<noteq> k) [0..<length (particles s)] in
      case random_choice perm (choice_pos s) no_self (num_informants s) of
        Inl e \<Rightarrow> Inl (e, s)
      | Inr js \<Rightarrow>
          Inr (s\<lparr>particles := (particles s)[k := set_informants (particles s ! k) js],
                 choice_pos := Suc (choice_pos s)\<rparr>))"

definition init_informants :: "(nat \<Rightarrow> nat list \<Rightarrow> nat list) \<Rightarrow> PSO \<Rightarrow> outcome" where
  "init_informants perm s = for_each (informants_one perm) [0..<length (particles s)] s"

text \<open>
  \<^verbatim>\<open>PSO._instantiate_particles\<close>. With no particle to create the search dimensions
  are not read.
\<close>

definition instantiate_particles ::
  "(nat \<Rightarrow> real) \<Rightarrow> (nat \<Rightarrow> nat list \<Rightarrow> nat list) \<Rightarrow> PSO \<Rightarrow> outcome" where
  "instantiate_particles U perm s =
     (case fitness_fn s of
        None \<Rightarrow> Inl (ValueError, s)
      | Some f \<Rightarrow>
          if swarm_size s \<le> 0 then init_informants perm (s\<lparr>particles := []\<rparr>)
          else
            (case search_dimension s of
               None \<Rightarrow> Inl (TypeError, s)
             | Some ds \<Rightarrow>
                 (let (ps, r) = make_particles U ds f (nat (swarm_size s)) (rng_pos s)
                  in init_informants perm (s\<lparr>particles := ps, rng_pos := r\<rparr>))))"

section \<open>The run\<close>

text \<open>
  Modelled from the spec: \<^verbatim>\<open>TerminationPolicyManager\<close> is imported from the module
  \<^verbatim>\<open>psobehaviour\<close>, which is not among the source files. By the spec, under the
  \<^verbatim>\<open>ITERATIONS\<close> policy (the one \<open>run\<close> always passes) the controller terminates once the
  iteration count reaches \<^verbatim>\<open>max_iter\<close>, and \<^verbatim>\<open>next_iteration\<close> advances the counter and
  records the fitness delta.
\<close>

record TerminationPolicyManager =
  tpm_max_iter :: int
  current_iter :: int
  fitness_delta :: real

definition TerminationPolicyManager_init :: "int \<Rightarrow> TerminationPolicyManager" where
  "TerminationPolicyManager_init n = \<lparr>tpm_max_iter = n, current_iter = 0, fitness_delta = 0\<rparr>"

definition terminate :: "TerminationPolicyManager \<Rightarrow> bool" where
  "terminate c = (tpm_max_iter c \<le> current_iter c)"

definition next_iteration :: "TerminationPolicyManager \<Rightarrow> real \<Rightarrow> TerminationPolicyManager" where
  "next_iteration c fd = c\<lparr>current_iter := current_iter c + 1, fitness_delta := fd\<rparr>"

text \<open>The part of \<open>run\<close> before the loop.\<close>

definition run_start :: "(nat \<Rightarrow> real) \<Rightarrow> (nat \<Rightarrow> nat list \<Rightarrow> nat list) \<Rightarrow> PSO \<Rightarrow> outcome" where
  "run_start U perm s =
     (if \<not> search_dimension_set s then Inl (ValueError, s)
      else
        (case instantiate_particles U perm s of
           Inl x \<Rightarrow> Inl x
         | Inr s1 \<Rightarrow> Inr (s1\<lparr>best := Some \<lparr>location = [], fitness = - 9999\<rparr>\<rparr>)))"

text \<open>The three phases of one iteration, each over the whole swarm.\<close>

definition sweep :: "(nat \<Rightarrow> real) \<Rightarrow> PSO \<Rightarrow> outcome" where
  "sweep U s =
     (case pso_assess_fitness s of
        Inl x \<Rightarrow> Inl x
      | Inr s1 \<Rightarrow>
          (case update_particle U s1 of
             Inl x \<Rightarrow> Inl x
           | Inr s2 \<Rightarrow> move_particles U s2))"

text \<open>\<^verbatim>\<open>self.best.fitness - self.previous_best.fitness\<close>.\<close>

definition best_delta :: "PSO \<Rightarrow> error + real" where
  "best_delta s =
     (case best s of
        None \<Rightarrow> Inl AttributeError
      | Some b \<Rightarrow>
          (case previous_best s of
             None \<Rightarrow> Inl AttributeError
           | Some pb \<Rightarrow> Inr (fitness b - fitness pb)))"

text \<open>The loop of \<open>run\<close>.\<close>

function run_loop :: "(nat \<Rightarrow> real) \<Rightarrow> TerminationPolicyManager \<Rightarrow> PSO \<Rightarrow> outcome" where
  "run_loop U controller s =
     (if terminate controller then Inr s
      else
        (case sweep U s of
           Inl x \<Rightarrow> Inl x
         | Inr s' \<Rightarrow>
             (case best_delta s' of
                Inl e \<Rightarrow> Inl (e, s')
              | Inr fd \<Rightarrow> run_loop U (next_iteration controller fd) s')))"
  by pat_completeness auto
termination
  by (relation "measure (\<lambda>(U, c, s). nat (tpm_max_iter c - current_iter c))")
     (auto simp: terminate_def next_iteration_def)

text \<open>\<^verbatim>\<open>PSO.run\<close>; the value returned is \<open>best\<close> of the final state.\<close>

definition run :: "(nat \<Rightarrow> real) \<Rightarrow> (nat \<Rightarrow> nat list \<Rightarrow> nat list) \<Rightarrow> PSO \<Rightarrow> outcome" where
  "run U perm s =
     (case run_start U perm s of
        Inl x \<Rightarrow> Inl x
      | Inr s1 \<Rightarrow> run_loop U (TerminationPolicyManager_init (max_iter s1)) s1)"

section \<open>Notions the properties are stated with\<close>

text \<open>The state after \<open>n\<close> iterations of the loop body, for a statement about every iteration.\<close>

fun sweeps :: "(nat \<Rightarrow> real) \<Rightarrow> nat \<Rightarrow> PSO \<Rightarrow> outcome" where
  "sweeps U 0 s = Inr s"
| "sweeps U (Suc n) s =
     (case sweep U s of
        Inl x \<Rightarrow> Inl x
      | Inr s' \<Rightarrow> sweeps U n s')"

text \<open>
  The number of particles before index \<open>k\<close> that are not frozen: each of them has taken its
  draws from the generator before the particle at \<open>k\<close> takes its own.
\<close>

definition moving_before :: "PSO \<Rightarrow> nat \<Rightarrow> nat" where
  "moving_before s k = length (filter (\<lambda>j. \<not> frozen (particles s ! j)) [0..<k])"

text \<open>A vector has a coordinate for every dimension, each within the bounds of the dimension.\<close>

definition within_bounds :: "(real \<times> real) list \<Rightarrow> real list \<Rightarrow> bool" where
  "within_bounds dims pos =
     list_all (\<lambda>(i, d). i < length pos \<and> fst d \<le> pos ! i \<and> pos ! i \<le> snd d) (enumerate 0 dims)"

text \<open>Every value of the stream is a value of \<^verbatim>\<open>random.random()\<close>: in the unit interval.\<close>

definition unit_draws :: "(nat \<Rightarrow> real) \<Rightarrow> bool" where
  "unit_draws U = (\<forall>n. 0 \<le> U n \<and> U n < 1)"

text \<open>What a phase leaves as it is: the configuration, and all of a particle but some fields.\<close>

definition same_config :: "PSO \<Rightarrow> PSO \<Rightarrow> bool" where
  "same_config s s' =
     (swarm_size s' = swarm_size s \<and> boundary s' = boundary s \<and> alpha s' = alpha s \<and>
      beta s' = beta s \<and> gamma s' = gamma s \<and> delta s' = delta s \<and> epsilon s' = epsilon s \<and>
      boundary_policy s' = boundary_policy s \<and> max_iter s' = max_iter s \<and>
      search_dimension s' = search_dimension s \<and>
      search_dimension_set s' = search_dimension_set s \<and>
      num_informants s' = num_informants s \<and> fitness_fn s' = fitness_fn s \<and>
      choice_pos s' = choice_pos s)"

definition assessed_only :: "Particle \<Rightarrow> Particle \<Rightarrow> bool" where
  "assessed_only p p' =
     (position p' = position p \<and> velocity p' = velocity p \<and> p_fitness_fn p' = p_fitness_fn p \<and>
      informants p' = informants p \<and> velocity_list p' = velocity_list p)"

definition velocity_only :: "Particle \<Rightarrow> Particle \<Rightarrow> bool" where
  "velocity_only p p' =
     (position p' = position p \<and> fitness_loc p' = fitness_loc p \<and>
      p_fitness_fn p' = p_fitness_fn p \<and> personal_fittest_loc p' = personal_fittest_loc p \<and>
      informants p' = informants p \<and> length (velocity p') = length (velocity p))"

definition position_only :: "Particle \<Rightarrow> Particle \<Rightarrow> bool" where
  "position_only p p' =
     (velocity p' = velocity p \<and> fitness_loc p' = fitness_loc p \<and>
      p_fitness_fn p' = p_fitness_fn p \<and> personal_fittest_loc p' = personal_fittest_loc p \<and>
      informants p' = informants p \<and> velocity_list p' = velocity_list p)"

text \<open>The search dimensions are \<open>dims\<close> and every particle is within their bounds.\<close>

definition all_within :: "(real \<times> real) list \<Rightarrow> PSO \<Rightarrow> bool" where
  "all_within dims s =
     (search_dimension s = Some dims \<and> list_all (\<lambda>p. within_bounds dims (position p)) (particles s))"

text \<open>
  With a step size of zero a move changes nothing: the shapes of position and velocity
  agree, and under \<^verbatim>\<open>RANDOMREINIT\<close> every particle is within the bounds.
\<close>

definition still :: "PSO \<Rightarrow> (real \<times> real) list \<Rightarrow> PSO \<Rightarrow> bool" where
  "still s dims a =
     (epsilon a = 0 \<and> boundary_policy a = boundary_policy s \<and>
      search_dimension a = search_dimension s \<and>
      list_all (\<lambda>p. length (velocity p) = length (position p)) (particles a) \<and>
      (boundary_policy s = REFUSE \<or> boundary_policy s = BOUNCE \<or>
       search_dimension s = Some dims \<and>
       list_all (\<lambda>p. within_bounds dims (position p)) (particles a)))"

text \<open>Every particle has a position and a velocity of \<open>D\<close> coordinates.\<close>

definition shaped :: "nat \<Rightarrow> PSO \<Rightarrow> bool" where
  "shaped D s = list_all (\<lambda>p. length (position p) = D \<and> length (velocity p) = D) (particles s)"

text \<open>
  The informants of the particle at index \<open>k\<close> in a swarm of \<open>n\<close>: \<open>K\<close> distinct particles of
  the swarm, none of them the particle itself.
\<close>

definition wired :: "nat \<Rightarrow> nat \<Rightarrow> nat \<Rightarrow> Particle \<Rightarrow> bool" where
  "wired n K k p =
     (length (informants p) = K \<and> distinct (informants p) \<and> k \<notin> set (informants p) \<and>
      list_all (\<lambda>j. j < n) (informants p))"

text \<open>The exception a phase ended with, if any.\<close>

fun raised :: "outcome \<Rightarrow> error option" where
  "raised (Inl (e, s)) = Some e"
| "raised (Inr s) = None"

text \<open>
  The candidate \<^verbatim>\<open>particle.position + (self.epsilon*particle.velocity)\<close> of a particle whose
  position and velocity have the same shape.
\<close>

definition candidate :: "PSO \<Rightarrow> Particle \<Rightarrow> real list" where
  "candidate s p = map2 (+) (position p) (np_scale (epsilon s) (velocity p))"

text \<open>The particle at index \<open>k\<close> moves, and its candidate has a coordinate outside the bounds.\<close>

definition offends :: "(real \<times> real) list \<Rightarrow> PSO \<Rightarrow> nat \<Rightarrow> bool" where
  "offends dims s k =
     (\<not> frozen (particles s ! k) \<and> \<not> within_bounds dims (candidate s (particles s ! k)))"

text \<open>
  The velocity the update gives a moving particle when the generator stands at \<open>r\<close>: the
  scan of the informants, then the loop over the \<open>D\<close> dimensions.
\<close>

definition new_velocity :: "(nat \<Rightarrow> real) \<Rightarrow> PSO \<Rightarrow> nat \<Rightarrow> Particle \<Rightarrow> nat \<Rightarrow> error + real list" where
  "new_velocity U s D p r =
     (case informant_scan (particles s) (informants p) sentinel of
        Inl e \<Rightarrow> Inl e
      | Inr ib \<Rightarrow>
          (case velocity_loop U s p ib [0..<D] (velocity p) r of
             Inl x \<Rightarrow> Inl (fst x)
           | Inr y \<Rightarrow> Inr (fst y)))"

text \<open>
  A particle the velocity update can serve: it is frozen, or its vectors and its personal
  best have a coordinate for each of the \<open>D\<close> dimensions, and the scan of its informants
  finds a location with \<open>D\<close> coordinates.
\<close>

definition ready :: "PSO \<Rightarrow> nat \<Rightarrow> Particle \<Rightarrow> bool" where
  "ready s D p =
     (frozen p \<or>
      D \<le> length (velocity p) \<and> D \<le> length (position p) \<and>
      (case personal_fittest_loc p of None \<Rightarrow> False | Some pb \<Rightarrow> D \<le> length (location pb)) \<and>
      (case informant_scan (particles s) (informants p) sentinel of
         Inl e \<Rightarrow> False
       | Inr ib \<Rightarrow> D \<le> length (location ib)))"

text \<open>
  A number within the range of the program's number format (binary64, largest finite value
  \<open>2\<^sup>1\<^sup>0\<^sup>2\<^sup>4 - 2\<^sup>9\<^sup>7\<^sup>1\<close>): a finite value of the program. A velocity component beyond the
  range stands for one the program holds as \<^verbatim>\<open>inf\<close>.
\<close>

definition finite64 :: "real \<Rightarrow> bool" where
  "finite64 x = (\<bar>x\<bar> \<le> 2 ^ 1024 - 2 ^ 971)"

text \<open>Every component of every velocity of the swarm is finite.\<close>

definition finite_velocities :: "PSO \<Rightarrow> bool" where
  "finite_velocities s = list_all (\<lambda>p. list_all finite64 (velocity p)) (particles s)"

text \<open>
  In each of the next \<open>n\<close> iterations, as far as they are reached, the velocities the
  move phase finds (those the velocity update has left) are finite.
\<close>

fun finite_moves :: "(nat \<Rightarrow> real) \<Rightarrow> nat \<Rightarrow> PSO \<Rightarrow> bool" where
  "finite_moves U 0 s = True"
| "finite_moves U (Suc n) s =
     (finite_velocities (final_state (update_particle U (final_state (pso_assess_fitness s)))) \<and>
      (case sweep U s of
         Inl x \<Rightarrow> True
       | Inr s' \<Rightarrow> finite_moves U n s'))"

section \<open>A small swarm\<close>

text \<open>
  Two particles in one dimension, each the informant of the other, with the fitness
  \<open>- x\<^sup>2\<close>, one iteration, and the stream of draws \<open>1/2, 1/3, 1/4, \<dots>\<close>. The bound, the
  step size and the boundary policy are left open.
\<close>

definition example_fitness :: "real list \<Rightarrow> real" where
  "example_fitness x = - sum_list (map (\<lambda>a. a * a) x)"

definition example_draws :: "nat \<Rightarrow> real" where
  "example_draws n = 1 / (real n + 2)"

definition example_perm :: "nat \<Rightarrow> nat list \<Rightarrow> nat list" where
  "example_perm c pool = pool"

definition example_config :: "real \<times> real \<Rightarrow> real \<Rightarrow> BoundaryPolicy \<Rightarrow> PSO" where
  "example_config bound e policy =
     final_state (set_search_dimensions
       (set_fitness_fn (PSO_init 2 1 bound (1 / 10) (13 / 10) (14 / 10) (13 / 10) e policy 1)
          example_fitness)
       (DimInt 1))"

text \<open>The swarm of the example as \<open>run\<close> creates it, before the first iteration.\<close>

definition example_swarm :: "real \<times> real \<Rightarrow> real \<Rightarrow> BoundaryPolicy \<Rightarrow> PSO" where
  "example_swarm bound e policy =
     final_state (run_start example_draws example_perm (example_config bound e policy))"

text \<open>The small swarm in its first iteration, after the velocity update and before the move.\<close>

definition example_before_move :: "real \<times> real \<Rightarrow> real \<Rightarrow> BoundaryPolicy \<Rightarrow> PSO" where
  "example_before_move bound e policy =
     final_state (update_particle example_draws
       (final_state (pso_assess_fitness (example_swarm bound e policy))))"

section \<open>Loops preserve what every pass preserves\<close>


lemma map_update_same: "f y = f (xs ! k) \<Longrightarrow> map f (xs[k := y]) = map f xs"
  by (induction xs arbitrary: k) (auto simp: nth_Cons' split: nat.splits)

lemma for_each_rel:
  assumes refl: "\<And>s. R s s"
    and trans: "\<And>a b c. R a b \<Longrightarrow> R b c \<Longrightarrow> R a c"
    and step: "\<And>s k. R s (final_state (body s k))"
  shows "R s (final_state (for_each body ks s))"
proof (induction ks arbitrary: s)
  case Nil
  show ?case by (simp add: refl)
next
  case (Cons k ks)
  show ?case
  proof (cases "body s k")
    case (Inl x)
    then show ?thesis using step [of s k] by (cases x) simp
  next
    case (Inr s')
    then have "R s s'" using step [of s k] by simp
    with Cons [of s'] Inr show ?thesis by (auto intro: trans)
  qed
qed

lemma velocity_loop_Inr_length:
  "velocity_loop U s p ib js v r = Inr (v', r') \<Longrightarrow> length v' = length v \<and> r' = r + 3 * length js"
proof (induction js arbitrary: v r)
  case Nil
  then show ?case by simp
next
  case (Cons a js)
  from Cons.prems obtain x where "velocity_loop U s p ib js (v[a := x]) (r + 3) = Inr (v', r')"
    by (auto simp: Let_def split: sum.splits)
  from Cons.IH [OF this] show ?case by simp
qed

lemma velocity_loop_Inl_length:
  "velocity_loop U s p ib js v r = Inl (e, v', r') \<Longrightarrow> length v' = length v"
proof (induction js arbitrary: v r)
  case Nil
  then show ?case by simp
next
  case (Cons a js)
  show ?case
  proof (cases "velocity_component s p ib v a (uniform 0 (beta s) (U r))
      (uniform 0 (gamma s) (U (r + 1))) (uniform 0 (delta s) (U (r + 2)))")
    case (Inl e')
    with Cons.prems show ?thesis by (simp add: Let_def)
  next
    case (Inr x)
    with Cons.prems have "velocity_loop U s p ib js (v[a := x]) (r + 3) = Inl (e, v', r')"
      by (simp add: Let_def)
    from Cons.IH [OF this] show ?thesis by simp
  qed
qed

lemma assess_one_config:
  "final_state (assess_one s k) = s\<lparr>particles := particles (final_state (assess_one s k)),
      best := best (final_state (assess_one s k)),
      previous_best := previous_best (final_state (assess_one s k))\<rparr>"
  by (simp add: assess_one_def Let_def split: prod.splits)

lemma update_one_config:
  "final_state (update_one U s k) = s\<lparr>particles := particles (final_state (update_one U s k)),
      rng_pos := rng_pos (final_state (update_one U s k))\<rparr>"
  by (simp add: update_one_def Let_def split: prod.splits sum.splits option.splits)

lemma move_one_config:
  "final_state (move_one U s k) = s\<lparr>particles := particles (final_state (move_one U s k)),
      rng_pos := rng_pos (final_state (move_one U s k))\<rparr>"
  by (simp add: move_one_def Let_def split: prod.splits sum.splits option.splits)

lemma list_all2_self_update:
  "(\<And>x. P x x) \<Longrightarrow> P (xs ! k) y \<Longrightarrow> list_all2 P xs (xs[k := y])"
  by (cases "k < length xs") (auto simp: list_all2_conv_all_nth nth_list_update)

lemma list_all2_map_eq:
  "list_all2 P xs ys \<Longrightarrow> (\<And>x y. P x y \<Longrightarrow> f x = f y) \<Longrightarrow> map f xs = map f ys"
  by (induction rule: list_all2_induct) auto

lemma assess_one_frame:
  "same_config s (final_state (assess_one s k)) \<and>
   rng_pos (final_state (assess_one s k)) = rng_pos s \<and>
   list_all2 assessed_only (particles s) (particles (final_state (assess_one s k)))"
  by (auto simp: assess_one_def Let_def same_config_def assessed_only_def assess_fitness_def
      list_all2_refl intro!: list_all2_self_update split: prod.splits option.splits)

lemma update_one_frame:
  "same_config s (final_state (update_one U s k)) \<and>
   best (final_state (update_one U s k)) = best s \<and>
   previous_best (final_state (update_one U s k)) = previous_best s \<and>
   list_all2 velocity_only (particles s) (particles (final_state (update_one U s k)))"
  by (auto simp: update_one_def Let_def same_config_def velocity_only_def update_velocity_def
      list_all2_refl dest: velocity_loop_Inr_length velocity_loop_Inl_length
      intro!: list_all2_self_update split: prod.splits option.splits sum.splits)

lemma move_one_frame:
  "same_config s (final_state (move_one U s k)) \<and>
   best (final_state (move_one U s k)) = best s \<and>
   previous_best (final_state (move_one U s k)) = previous_best s \<and>
   list_all2 position_only (particles s) (particles (final_state (move_one U s k)))"
  by (auto simp: move_one_def Let_def same_config_def position_only_def update_position_def
      list_all2_refl intro!: list_all2_self_update split: prod.splits option.splits sum.splits)

lemma sweep_rel:
  assumes refl: "\<And>s. R s s"
    and trans: "\<And>a b c. R a b \<Longrightarrow> R b c \<Longrightarrow> R a c"
    and assess: "\<And>s k. R s (final_state (assess_one s k))"
    and update: "\<And>s k. R s (final_state (update_one U s k))"
    and move: "\<And>s k. R s (final_state (move_one U s k))"
  shows "R s (final_state (sweep U s))"
proof -
  have a: "R s (final_state (pso_assess_fitness s))" for s
    unfolding pso_assess_fitness_def by (rule for_each_rel) (fact refl trans assess)+
  have u: "R s (final_state (update_particle U s))" for s
    unfolding update_particle_def by (rule for_each_rel) (fact refl trans update)+
  have m: "R s (final_state (move_particles U s))" for s
    unfolding move_particles_def by (rule for_each_rel) (fact refl trans move)+
  show ?thesis
  proof (cases "pso_assess_fitness s")
    case (Inl x)
    then show ?thesis using a [of s] by (simp add: sweep_def)
  next
    case s1: (Inr s1)
    then have 1: "R s s1" using a [of s] by simp
    show ?thesis
    proof (cases "update_particle U s1")
      case (Inl x)
      then have "R s1 (final_state (sweep U s))" using u [of s1] s1 by (simp add: sweep_def)
      with 1 show ?thesis by (rule trans)
    next
      case (Inr s2)
      then have 2: "R s1 s2" using u [of s1] by simp
      have "R s2 (final_state (sweep U s))" using m [of s2] s1 Inr by (simp add: sweep_def)
      with 1 2 show ?thesis by (blast intro: trans)
    qed
  qed
qed

lemma sweeps_rel:
  assumes refl: "\<And>s. R s s"
    and trans: "\<And>a b c. R a b \<Longrightarrow> R b c \<Longrightarrow> R a c"
    and step: "\<And>s. R s (final_state (sweep U s))"
  shows "R s (final_state (sweeps U n s))"
proof (induction n arbitrary: s)
  case 0
  show ?case by (simp add: refl)
next
  case (Suc n)
  show ?case
  proof (cases "sweep U s")
    case (Inl x)
    then show ?thesis using step [of s] by simp
  next
    case (Inr s')
    then have "R s s'" using step [of s] by simp
    with Suc [of s'] Inr show ?thesis by (auto intro: trans)
  qed
qed

lemma run_loop_rel:
  assumes refl: "\<And>s. R s s"
    and trans: "\<And>a b c. R a b \<Longrightarrow> R b c \<Longrightarrow> R a c"
    and step: "\<And>s. R s (final_state (sweep U s))"
  shows "R s (final_state (run_loop U c s))"
proof (induction "nat (tpm_max_iter c - current_iter c)" arbitrary: c s)
  case 0
  then have "terminate c" by (simp add: terminate_def)
  then show ?case by (simp add: refl)
next
  case (Suc n)
  then have nt: "\<not> terminate c" by (simp add: terminate_def)
  show ?case
  proof (cases "sweep U s")
    case (Inl x)
    then show ?thesis using step [of s] nt by simp
  next
    case (Inr s')
    then have r: "R s s'" using step [of s] by simp
    show ?thesis
    proof (cases "best_delta s'")
      case (Inl e)
      then show ?thesis using r nt Inr by simp
    next
      case fd: (Inr fd)
      have "n = nat (tpm_max_iter (next_iteration c fd) - current_iter (next_iteration c fd))"
        using Suc.hyps(2) by (simp add: next_iteration_def)
      from Suc.hyps(1) [OF this, of s'] r show ?thesis
        using nt Inr fd by (auto intro: trans)
    qed
  qed
qed


section \<open>What each phase leaves unchanged\<close>

lemma same_config_refl: "same_config s s"
  by (simp add: same_config_def)

lemma same_config_trans: "same_config a b \<Longrightarrow> same_config b c \<Longrightarrow> same_config a c"
  by (simp add: same_config_def)

lemma assessed_only_trans: "assessed_only a b \<Longrightarrow> assessed_only b c \<Longrightarrow> assessed_only a c"
  by (simp add: assessed_only_def)

lemma velocity_only_trans: "velocity_only a b \<Longrightarrow> velocity_only b c \<Longrightarrow> velocity_only a c"
  by (simp add: velocity_only_def)

lemma position_only_trans: "position_only a b \<Longrightarrow> position_only b c \<Longrightarrow> position_only a c"
  by (simp add: position_only_def)

lemma pso_assess_fitness_frame:
  "same_config s (final_state (pso_assess_fitness s)) \<and>
   rng_pos (final_state (pso_assess_fitness s)) = rng_pos s \<and>
   list_all2 assessed_only (particles s) (particles (final_state (pso_assess_fitness s)))"
  unfolding pso_assess_fitness_def
proof (rule for_each_rel [where R = "\<lambda>s s'. same_config s s' \<and> rng_pos s' = rng_pos s \<and>
      list_all2 assessed_only (particles s) (particles s')"], goal_cases)
  case (1 s)
  show ?case by (simp add: same_config_refl list_all2_refl assessed_only_def)
next
  case (2 a b c)
  then show ?case
    by (auto intro: same_config_trans list_all2_trans [OF assessed_only_trans])
next
  case (3 s k)
  show ?case by (rule assess_one_frame)
qed

lemma update_particle_frame:
  "same_config s (final_state (update_particle U s)) \<and>
   best (final_state (update_particle U s)) = best s \<and>
   previous_best (final_state (update_particle U s)) = previous_best s \<and>
   list_all2 velocity_only (particles s) (particles (final_state (update_particle U s)))"
  unfolding update_particle_def
proof (rule for_each_rel [where R = "\<lambda>s s'. same_config s s' \<and> best s' = best s \<and>
      previous_best s' = previous_best s \<and>
      list_all2 velocity_only (particles s) (particles s')"], goal_cases)
  case (1 s)
  show ?case by (simp add: same_config_refl list_all2_refl velocity_only_def)
next
  case (2 a b c)
  then show ?case
    by (auto intro: same_config_trans list_all2_trans [OF velocity_only_trans])
next
  case (3 s k)
  show ?case by (rule update_one_frame)
qed

lemma move_particles_frame:
  "same_config s (final_state (move_particles U s)) \<and>
   best (final_state (move_particles U s)) = best s \<and>
   previous_best (final_state (move_particles U s)) = previous_best s \<and>
   list_all2 position_only (particles s) (particles (final_state (move_particles U s)))"
  unfolding move_particles_def
proof (rule for_each_rel [where R = "\<lambda>s s'. same_config s s' \<and> best s' = best s \<and>
      previous_best s' = previous_best s \<and>
      list_all2 position_only (particles s) (particles s')"], goal_cases)
  case (1 s)
  show ?case by (simp add: same_config_refl list_all2_refl position_only_def)
next
  case (2 a b c)
  then show ?case
    by (auto intro: same_config_trans list_all2_trans [OF position_only_trans])
next
  case (3 s k)
  show ?case by (rule move_one_frame)
qed

section \<open>The velocity update changes velocities only\<close>

text \<open>
  C9. The velocity-update phase, whether it returns or raises, leaves the position, the
  \<open>fitness_loc\<close> and the personal best of every particle as they were; only velocities
  (and the history of velocities) change. The assessment before it leaves the positions
  as they were too, so that positions change in the move phase only.
\<close>

theorem velocity_update_leaves_positions:
  "map position (particles (final_state (update_particle U s))) = map position (particles s) \<and>
   map fitness_loc (particles (final_state (update_particle U s))) = map fitness_loc (particles s) \<and>
   map personal_fittest_loc (particles (final_state (update_particle U s))) =
     map personal_fittest_loc (particles s) \<and>
   map position (particles (final_state (pso_assess_fitness s))) = map position (particles s)"
proof -
  have u: "list_all2 velocity_only (particles s) (particles (final_state (update_particle U s)))"
    using update_particle_frame [of s U] by simp
  have a: "list_all2 assessed_only (particles s) (particles (final_state (pso_assess_fitness s)))"
    using pso_assess_fitness_frame [of s] by simp
  show ?thesis
    using list_all2_map_eq [OF u, of position] list_all2_map_eq [OF u, of fitness_loc]
      list_all2_map_eq [OF u, of personal_fittest_loc] list_all2_map_eq [OF a, of position]
    by (simp add: velocity_only_def assessed_only_def)
qed

text \<open>
  On the small swarm: after the assessment and the velocity update of the first
  iteration the positions are the initial ones, the velocities are new.
\<close>

theorem velocity_update_leaves_positions_witness:
  "map position (particles (final_state (update_particle example_draws
      (final_state (pso_assess_fitness (example_swarm (0, 1) (1 / 10) REFUSE)))))) = [[1 / 2], [1 / 4]] \<and>
   map velocity (particles (final_state (update_particle example_draws
      (final_state (pso_assess_fitness (example_swarm (0, 1) (1 / 10) REFUSE)))))) = [[- (11 / 192)], [11 / 200]]"
proof -
  have "map position (particles (final_state (pso_assess_fitness (example_swarm (0, 1) (1 / 10) REFUSE))))
      = [[1 / 2], [1 / 4]]"
    by code_simp
  moreover have "map velocity (particles (final_state (update_particle example_draws
      (final_state (pso_assess_fitness (example_swarm (0, 1) (1 / 10) REFUSE)))))) = [[- (11 / 192)], [11 / 200]]"
    by code_simp
  ultimately show ?thesis
    using velocity_update_leaves_positions [of example_draws
        "final_state (pso_assess_fitness (example_swarm (0, 1) (1 / 10) REFUSE))"]
    by simp
qed


section \<open>Frozen particles\<close>

lemma frozen_iff: "frozen p \<longleftrightarrow> list_all (\<lambda>x. x = 0) (velocity p)"
  by (simp add: frozen_def any_nonzero_def list_all_iff list_ex_iff)

lemma assess_one_frozen:
  "frozen (particles s ! j) \<Longrightarrow> particles (final_state (assess_one s k)) ! j = particles s ! j"
  by (cases "k = j") (auto simp: assess_one_def Let_def split: prod.splits)

lemma update_one_frozen:
  "frozen (particles s ! j) \<Longrightarrow> particles (final_state (update_one U s k)) ! j = particles s ! j"
  by (cases "k = j")
    (auto simp: update_one_def Let_def split: prod.splits sum.splits option.splits)

lemma move_one_frozen:
  "frozen (particles s ! j) \<Longrightarrow> particles (final_state (move_one U s k)) ! j = particles s ! j"
  by (cases "k = j")
    (auto simp: move_one_def Let_def split: prod.splits sum.splits option.splits)

lemma frozen_rel_trans:
  "(frozen (particles a ! j) \<longrightarrow> particles b ! j = particles a ! j) \<Longrightarrow>
   (frozen (particles b ! j) \<longrightarrow> particles c ! j = particles b ! j) \<Longrightarrow>
   (frozen (particles a ! j) \<longrightarrow> particles c ! j = particles a ! j)"
  by auto

text \<open>
  C3. A particle whose velocity is zero in every dimension is skipped by the assessment,
  by the velocity update and by the move: each phase, whether it returns or raises,
  leaves the whole particle (velocity, position, \<open>fitness_loc\<close>, personal best) as it
  was. Its velocity therefore stays zero, and the particle is the same after any number
  of iterations and at the end of the loop of the run.
\<close>

theorem frozen_particle_is_never_touched:
  assumes k: "k < length (particles s)"
    and zero: "list_all (\<lambda>x. x = 0) (velocity (particles s ! k))"
  shows "particles (final_state (pso_assess_fitness s)) ! k = particles s ! k \<and>
         particles (final_state (update_particle U s)) ! k = particles s ! k \<and>
         particles (final_state (move_particles U s)) ! k = particles s ! k \<and>
         particles (final_state (sweeps U n s)) ! k = particles s ! k \<and>
         particles (final_state (run_loop U c s)) ! k = particles s ! k"
proof -
  let ?R = "\<lambda>a b. frozen (particles a ! k) \<longrightarrow> particles b ! k = particles a ! k"
  have f: "frozen (particles s ! k)" using zero by (simp add: frozen_iff)
  have a: "?R s (final_state (assess_one s j))" for s j by (simp add: assess_one_frozen)
  have u: "?R s (final_state (update_one U s j))" for s j by (simp add: update_one_frozen)
  have m: "?R s (final_state (move_one U s j))" for s j by (simp add: move_one_frozen)
  have sw: "?R s (final_state (sweep U s))" for s
    by (rule sweep_rel [where R = ?R]) (use a u m in \<open>auto\<close>)
  have "?R s (final_state (pso_assess_fitness s))"
    unfolding pso_assess_fitness_def by (rule for_each_rel [where R = ?R]) (use a in \<open>auto\<close>)
  moreover have "?R s (final_state (update_particle U s))"
    unfolding update_particle_def by (rule for_each_rel [where R = ?R]) (use u in \<open>auto\<close>)
  moreover have "?R s (final_state (move_particles U s))"
    unfolding move_particles_def by (rule for_each_rel [where R = ?R]) (use m in \<open>auto\<close>)
  moreover have "?R s (final_state (sweeps U n s))"
    by (rule sweeps_rel [where R = ?R]) (use sw in \<open>auto\<close>)
  moreover have "?R s (final_state (run_loop U c s))"
    by (rule run_loop_rel [where R = ?R]) (use sw in \<open>auto\<close>)
  ultimately show ?thesis using f by simp
qed

text \<open>
  With the bound \<open>(0, 0)\<close> every initial velocity is zero: the second particle of the small
  swarm is where it started after the run, and was never assessed.
\<close>

theorem frozen_particle_is_never_touched_witness:
  "list_all (\<lambda>x. x = 0) (velocity (particles (example_swarm (0, 0) (1 / 10) RANDOMREINIT) ! 1)) \<and>
   position (particles (final_state (run_loop example_draws (TerminationPolicyManager_init 1)
      (example_swarm (0, 0) (1 / 10) RANDOMREINIT))) ! 1) = [0] \<and>
   fitness_loc (particles (final_state (run_loop example_draws (TerminationPolicyManager_init 1)
      (example_swarm (0, 0) (1 / 10) RANDOMREINIT))) ! 1) = None"
proof -
  have k: "1 < length (particles (example_swarm (0, 0) (1 / 10) RANDOMREINIT))"
    by code_simp
  have z: "list_all (\<lambda>x. x = 0) (velocity (particles (example_swarm (0, 0) (1 / 10) RANDOMREINIT) ! 1))"
    by code_simp
  have p: "position (particles (example_swarm (0, 0) (1 / 10) RANDOMREINIT) ! 1) = [0]"
    "fitness_loc (particles (example_swarm (0, 0) (1 / 10) RANDOMREINIT) ! 1) = None"
    by code_simp+
  from frozen_particle_is_never_touched [OF k z, of example_draws 0 "TerminationPolicyManager_init 1"]
  show ?thesis using z p by simp
qed

section \<open>The best fitness of the swarm\<close>

lemma assess_one_best:
  "best s = Some x \<Longrightarrow> \<exists>y. best (final_state (assess_one s k)) = Some y \<and> fitness x \<le> fitness y"
  by (auto simp: assess_one_def Let_def FitnessLoc_gt_def split: prod.splits)

text \<open>
  C5. Once the swarm has a best (the run sets one before the loop), an iteration never
  lowers its fitness: after one iteration, after any number of iterations, and at the end
  of the loop, whether the run returned or raised, the fitness of the best is at least
  what it was.
\<close>

theorem best_fitness_never_decreases:
  assumes "best s = Some b"
  shows "(\<exists>b'. best (final_state (sweep U s)) = Some b' \<and> fitness b \<le> fitness b') \<and>
         (\<exists>b'. best (final_state (sweeps U n s)) = Some b' \<and> fitness b \<le> fitness b') \<and>
         (\<exists>b'. best (final_state (run_loop U c s)) = Some b' \<and> fitness b \<le> fitness b')"
proof -
  let ?R = "\<lambda>a b. \<forall>x. best a = Some x \<longrightarrow> (\<exists>y. best b = Some y \<and> fitness x \<le> fitness y)"
  have tr: "?R a b \<Longrightarrow> ?R b c \<Longrightarrow> ?R a c" for a b c
    by (meson order_trans)
  have a: "?R s (final_state (assess_one s j))" for s j by (simp add: assess_one_best)
  have u: "?R s (final_state (update_one U s j))" for s j using update_one_frame [of s U j] by simp
  have m: "?R s (final_state (move_one U s j))" for s j using move_one_frame [of s U j] by simp
  have sw: "?R s (final_state (sweep U s))" for s
    by (rule sweep_rel [where R = ?R]) (use a u m tr in \<open>blast+\<close>)
  have "?R s (final_state (sweeps U n s))"
    by (rule sweeps_rel [where R = ?R]) (use sw tr in \<open>blast+\<close>)
  moreover have "?R s (final_state (run_loop U c s))"
    by (rule run_loop_rel [where R = ?R]) (use sw tr in \<open>blast+\<close>)
  ultimately show ?thesis using sw [of s] assms by simp
qed

text \<open>On the small swarm, from the best the run starts with.\<close>

theorem best_fitness_never_decreases_witness:
  "best (example_swarm (0, 1) (1 / 10) REFUSE) = Some \<lparr>location = [], fitness = - 9999\<rparr> \<and>
   (\<exists>b'. best (final_state (sweep example_draws (example_swarm (0, 1) (1 / 10) REFUSE))) = Some b' \<and>
      - 9999 \<le> fitness b')"
proof -
  have h: "best (example_swarm (0, 1) (1 / 10) REFUSE) = Some \<lparr>location = [], fitness = - 9999\<rparr>"
    by code_simp
  from best_fitness_never_decreases [OF h, of example_draws 0 "TerminationPolicyManager_init 1"]
  show ?thesis using h by simp
qed

section \<open>Positions stay within the bounds\<close>

lemma uniform_between:
  "lo \<le> hi \<Longrightarrow> 0 \<le> u \<Longrightarrow> u \<le> 1 \<Longrightarrow> lo \<le> uniform lo hi u \<and> uniform lo hi u \<le> hi"
proof -
  assume a: "lo \<le> hi" "0 \<le> u" "u \<le> 1"
  then have "0 \<le> (hi - lo) * u" by simp
  moreover have "(hi - lo) * u \<le> (hi - lo) * 1"
    using a by (intro mult_left_mono) auto
  ultimately show ?thesis by (simp add: uniform_def)
qed

lemma boundary_loop_untouched:
  "boundary_loop U pol pos (enumerate n ds) temp r = Inr (t, r') \<Longrightarrow>
     length t = length temp \<and> (\<forall>j<n. t ! j = temp ! j)"
proof (induction ds arbitrary: n temp r)
  case Nil
  then show ?case by simp
next
  case (Cons d ds)
  from Cons.prems obtain temp1 r1 where
    1: "boundary_loop U pol pos (enumerate (Suc n) ds) temp1 r1 = Inr (t, r')"
    and 2: "length temp1 = length temp" and 3: "\<forall>j<n. temp1 ! j = temp ! j"
    by (auto split: if_splits BoundaryPolicy.splits)
  from Cons.IH [OF 1] 2 3 show ?case by simp
qed

lemma boundary_loop_bounded:
  assumes "boundary_loop U pol pos (enumerate n ds) temp r = Inr (t, r')"
    and "list_all (\<lambda>d. fst d \<le> snd d) ds"
    and "unit_draws U"
    and "list_all (\<lambda>(i, d). i < length pos \<and> fst d \<le> pos ! i \<and> pos ! i \<le> snd d) (enumerate n ds)"
  shows "list_all (\<lambda>(i, d). i < length t \<and> fst d \<le> t ! i \<and> t ! i \<le> snd d) (enumerate n ds)"
  using assms
proof (induction ds arbitrary: n temp r)
  case Nil
  then show ?case by simp
next
  case (Cons d ds)
  have n: "n < length temp"
    using Cons.prems(1) by (auto split: if_splits)
  have u: "fst d \<le> uniform (fst d) (snd d) (U r) \<and> uniform (fst d) (snd d) (U r) \<le> snd d"
    using Cons.prems(2,3) by (intro uniform_between) (auto simp: unit_draws_def less_imp_le)
  from Cons.prems(1) n obtain temp1 r1 where
    1: "boundary_loop U pol pos (enumerate (Suc n) ds) temp1 r1 = Inr (t, r')"
    and 2: "length temp1 = length temp"
    and 3: "fst d \<le> temp1 ! n \<and> temp1 ! n \<le> snd d"
    using u Cons.prems(4)
    by (auto split: if_splits BoundaryPolicy.splits)
  have "list_all (\<lambda>(i, d). i < length t \<and> fst d \<le> t ! i \<and> t ! i \<le> snd d) (enumerate (Suc n) ds)"
    using Cons.IH [OF 1] Cons.prems(2,3,4) by simp
  moreover have "length t = length temp1 \<and> t ! n = temp1 ! n"
    using boundary_loop_untouched [OF 1] by simp
  ultimately show ?case using 2 3 n by simp
qed

lemma move_position_bounded:
  assumes "move_position U s p r = Inr (t, r')"
    and "search_dimension s = Some dims"
    and "list_all (\<lambda>d. fst d \<le> snd d) dims"
    and "unit_draws U"
    and "within_bounds dims (position p)"
  shows "within_bounds dims t"
  using assms boundary_loop_bounded [of U "boundary_policy s" "position p" 0 dims _ r t r']
  by (auto simp: move_position_def within_bounds_def split: sum.splits)

lemma list_all_update: "list_all P xs \<Longrightarrow> P y \<Longrightarrow> list_all P (xs[k := y])"
  by (auto simp: list_all_iff dest: set_update_subset_insert [THEN subsetD])

lemma list_all2_list_all:
  "list_all2 Q xs ys \<Longrightarrow> (\<And>x y. Q x y \<Longrightarrow> P x \<Longrightarrow> P y) \<Longrightarrow> list_all P xs \<Longrightarrow> list_all P ys"
  by (induction rule: list_all2_induct) auto

lemma move_one_bounded:
  assumes "list_all (\<lambda>d. fst d \<le> snd d) dims" and "unit_draws U" and "all_within dims s"
  shows "all_within dims (final_state (move_one U s k))"
proof (cases "k < length (particles s)")
  case False
  then have "(particles s)[k := y] = particles s" for y by (simp add: list_update_beyond)
  then show ?thesis using assms(3)
    by (auto simp: move_one_def Let_def all_within_def split: sum.splits prod.splits)
next
  case True
  then have "within_bounds dims (position (particles s ! k))"
    using assms(3) by (simp add: all_within_def list_all_length)
  then show ?thesis
    using assms move_position_bounded [of U s "particles s ! k" "rng_pos s" _ _ dims]
    by (auto simp: move_one_def Let_def all_within_def update_position_def
        intro!: list_all_update split: sum.splits prod.splits)
qed

lemma all_within_frame:
  "all_within dims a \<Longrightarrow> same_config a b \<Longrightarrow> map position (particles b) = map position (particles a)
     \<Longrightarrow> all_within dims b"
proof -
  assume a: "all_within dims a" and c: "same_config a b"
    and m: "map position (particles b) = map position (particles a)"
  have "list_all (within_bounds dims) (map position (particles a))"
    using a by (simp add: all_within_def list_all_iff)
  then have "list_all (within_bounds dims) (map position (particles b))"
    using m by simp
  then show ?thesis using a c by (simp add: all_within_def same_config_def list_all_iff)
qed

lemma assess_one_bounded: "all_within dims s \<Longrightarrow> all_within dims (final_state (assess_one s k))"
  using assess_one_frame [of s k]
  by (auto elim!: all_within_frame intro: list_all2_map_eq [symmetric] simp: assessed_only_def)

lemma update_one_bounded: "all_within dims s \<Longrightarrow> all_within dims (final_state (update_one U s k))"
  using update_one_frame [of s U k]
  by (auto elim!: all_within_frame intro: list_all2_map_eq [symmetric] simp: velocity_only_def)

lemma init_position_eq:
  "init_position U ds r =
     (map (\<lambda>(i, d). uniform (fst d) (snd d) (U i)) (enumerate r ds), r + length ds)"
  by (induction ds arbitrary: r) simp_all

lemma init_position_bounded:
  assumes "list_all (\<lambda>d. fst d \<le> snd d) ds" and "unit_draws U"
  shows "within_bounds ds (fst (init_position U ds r))"
proof -
  have "fst (ds ! n) \<le> uniform (fst (ds ! n)) (snd (ds ! n)) (U (r + n)) \<and>
        uniform (fst (ds ! n)) (snd (ds ! n)) (U (r + n)) \<le> snd (ds ! n)"
    if "n < length ds" for n
    using that assms by (intro uniform_between) (auto simp: list_all_length unit_draws_def less_imp_le)
  then show ?thesis
    by (simp add: within_bounds_def init_position_eq list_all_length nth_enumerate_eq)
qed

lemma make_particles_bounded:
  assumes "list_all (\<lambda>d. fst d \<le> snd d) ds" and "unit_draws U"
  shows "list_all (\<lambda>p. within_bounds ds (position p)) (fst (make_particles U ds f n r))"
proof (induction n arbitrary: r)
  case 0
  show ?case by simp
next
  case (Suc n)
  obtain pos r1 where p: "init_position U ds r = (pos, r1)" by (cases "init_position U ds r")
  obtain vel r2 where v: "init_velocity U ds r1 = (vel, r2)" by (cases "init_velocity U ds r1")
  obtain ps r3 where m: "make_particles U ds f n r2 = (ps, r3)" by (cases "make_particles U ds f n r2")
  have "within_bounds ds pos" using init_position_bounded [OF assms, of r] p by simp
  moreover have "list_all (\<lambda>p. within_bounds ds (position p)) ps" using Suc [of r2] m by simp
  ultimately show ?case using p v m by (simp add: Particle_init_def)
qed

lemma informants_one_positions:
  "search_dimension (final_state (informants_one perm s k)) = search_dimension s \<and>
   map position (particles (final_state (informants_one perm s k))) = map position (particles s)"
  by (auto simp: informants_one_def Let_def set_informants_def map_update_same split: sum.splits)

lemma init_informants_positions:
  "search_dimension (final_state (init_informants perm s)) = search_dimension s \<and>
   map position (particles (final_state (init_informants perm s))) = map position (particles s)"
  unfolding init_informants_def
  by (rule for_each_rel [where R = "\<lambda>s s'. search_dimension s' = search_dimension s \<and>
      map position (particles s') = map position (particles s)"])
    (simp_all add: informants_one_positions)

lemma run_start_bounded:
  assumes "list_all (\<lambda>d. fst d \<le> snd d) dims" and "unit_draws U"
    and "search_dimension s = Some dims" and "run_start U perm s = Inr s1"
  shows "all_within dims s1"
proof -
  obtain f where f: "fitness_fn s = Some f"
    using assms(4) by (auto simp: run_start_def instantiate_particles_def split: if_splits option.splits)
  define s0 where "s0 = (if swarm_size s \<le> 0 then s\<lparr>particles := []\<rparr>
     else s\<lparr>particles := fst (make_particles U dims f (nat (swarm_size s)) (rng_pos s)),
            rng_pos := snd (make_particles U dims f (nat (swarm_size s)) (rng_pos s))\<rparr>)"
  have i: "instantiate_particles U perm s = init_informants perm s0"
    using f assms(3) by (simp add: instantiate_particles_def s0_def split: prod.splits)
  have "list_all (\<lambda>p. within_bounds dims (position p)) (particles s0)"
    using make_particles_bounded [OF assms(1,2)] by (simp add: s0_def)
  then have "list_all (within_bounds dims) (map position (particles s0))"
    by (simp add: list_all_iff)
  then have "list_all (within_bounds dims) (map position (particles (final_state (init_informants perm s0))))"
    using init_informants_positions [of perm s0] by simp
  moreover have "search_dimension (final_state (init_informants perm s0)) = Some dims"
    using init_informants_positions [of perm s0] assms(3) by (simp add: s0_def)
  ultimately have "all_within dims (final_state (init_informants perm s0))"
    by (simp add: all_within_def list_all_iff)
  then show ?thesis
    using assms(4) i by (auto simp: run_start_def all_within_def split: if_splits sum.splits)
qed

text \<open>
  C2. Let every dimension have \<open>low \<le> high\<close>, let the draws be values of
  \<^verbatim>\<open>random.random()\<close>, let the policy be \<^verbatim>\<open>RANDOMREINIT\<close> or \<^verbatim>\<open>REFUSE\<close>, and let every
  particle be within the bounds in every dimension. Then every particle is within the
  bounds in every dimension after the move phase, and so after any number of iterations
  and at the end of the loop of the run. By \<open>run_start_bounded\<close> the positions the run
  starts from are within the bounds.
\<close>

theorem positions_stay_within_bounds:
  assumes ord: "list_all (\<lambda>d. fst d \<le> snd d) dims"
    and U: "unit_draws U"
    and dims: "search_dimension s = Some dims"
    and pol: "boundary_policy s = RANDOMREINIT \<or> boundary_policy s = REFUSE"
    and init: "list_all (\<lambda>p. within_bounds dims (position p)) (particles s)"
  shows "list_all (\<lambda>p. within_bounds dims (position p)) (particles (final_state (move_particles U s))) \<and>
         list_all (\<lambda>p. within_bounds dims (position p)) (particles (final_state (sweeps U n s))) \<and>
         list_all (\<lambda>p. within_bounds dims (position p)) (particles (final_state (run_loop U c s)))"
proof -
  let ?R = "\<lambda>a b. all_within dims a \<longrightarrow> all_within dims b"
  have s: "all_within dims s" using dims init by (simp add: all_within_def)
  have a: "?R s (final_state (assess_one s j))" for s j by (simp add: assess_one_bounded)
  have u: "?R s (final_state (update_one U s j))" for s j by (simp add: update_one_bounded)
  have m: "?R s (final_state (move_one U s j))" for s j by (simp add: move_one_bounded [OF ord U])
  have sw: "?R s (final_state (sweep U s))" for s
    by (rule sweep_rel [where R = ?R]) (use a u m in \<open>auto\<close>)
  have "?R s (final_state (move_particles U s))"
    unfolding move_particles_def by (rule for_each_rel [where R = ?R]) (use m in \<open>auto\<close>)
  moreover have "?R s (final_state (sweeps U n s))"
    by (rule sweeps_rel [where R = ?R]) (use sw in \<open>auto\<close>)
  moreover have "?R s (final_state (run_loop U c s))"
    by (rule run_loop_rel [where R = ?R]) (use sw in \<open>auto\<close>)
  ultimately show ?thesis using s by (simp add: all_within_def)
qed

lemma unit_draws_example: "unit_draws example_draws"
  by (simp add: unit_draws_def example_draws_def)

text \<open>
  On the small swarm with the bound \<open>(0, 1)\<close>: with step size 100 both candidates leave
  the bounds and \<^verbatim>\<open>REFUSE\<close> keeps the particles where they were; with step size 1/10 the
  particles move inside the bounds.
\<close>

theorem positions_stay_within_bounds_witness:
  "list_all (\<lambda>p. within_bounds [(0, 1)] (position p)) (particles (example_swarm (0, 1) 100 REFUSE)) \<and>
   list_all (\<lambda>p. within_bounds [(0, 1)] (position p))
     (particles (final_state (sweeps example_draws 1 (example_swarm (0, 1) 100 REFUSE)))) \<and>
   map position (particles (final_state (sweeps example_draws 1 (example_swarm (0, 1) 100 REFUSE)))) =
     [[1 / 2], [1 / 4]] \<and>
   list_all (\<lambda>p. within_bounds [(0, 1)] (position p))
     (particles (final_state (sweeps example_draws 1 (example_swarm (0, 1) (1 / 10) RANDOMREINIT)))) \<and>
   map position (particles (final_state (sweeps example_draws 1 (example_swarm (0, 1) (1 / 10) RANDOMREINIT)))) =
     [[949 / 1920], [511 / 2000]]"
proof -
  have o: "list_all (\<lambda>d. fst d \<le> snd d) [(0 :: real, 1 :: real)]" by simp
  have d: "search_dimension (example_swarm (0, 1) 100 REFUSE) = Some [(0, 1)]"
    "search_dimension (example_swarm (0, 1) (1 / 10) RANDOMREINIT) = Some [(0, 1)]"
    by code_simp+
  have p: "boundary_policy (example_swarm (0, 1) 100 REFUSE) = RANDOMREINIT \<or>
           boundary_policy (example_swarm (0, 1) 100 REFUSE) = REFUSE"
    "boundary_policy (example_swarm (0, 1) (1 / 10) RANDOMREINIT) = RANDOMREINIT \<or>
           boundary_policy (example_swarm (0, 1) (1 / 10) RANDOMREINIT) = REFUSE"
    by code_simp+
  have i: "list_all (\<lambda>p. within_bounds [(0, 1)] (position p)) (particles (example_swarm (0, 1) 100 REFUSE))"
    "list_all (\<lambda>p. within_bounds [(0, 1)] (position p)) (particles (example_swarm (0, 1) (1 / 10) RANDOMREINIT))"
    by code_simp+
  have v: "map position (particles (final_state (sweeps example_draws 1 (example_swarm (0, 1) 100 REFUSE)))) =
     [[1 / 2], [1 / 4]]"
    "map position (particles (final_state (sweeps example_draws 1 (example_swarm (0, 1) (1 / 10) RANDOMREINIT)))) =
     [[949 / 1920], [511 / 2000]]"
    by code_simp+
  from positions_stay_within_bounds [OF o unit_draws_example d(1) p(1) i(1), of 1 "TerminationPolicyManager_init 1"]
    positions_stay_within_bounds [OF o unit_draws_example d(2) p(2) i(2), of 1 "TerminationPolicyManager_init 1"]
  show ?thesis using i v by simp
qed

section \<open>A step size of zero\<close>

lemma np_add_zero_step:
  "length v = length pos \<Longrightarrow> np_add pos (np_scale 0 v) = Inr pos"
  by (simp add: np_add_def np_scale_def list_eq_iff_nth_eq)

lemma boundary_loop_stays:
  assumes "pol = RANDOMREINIT \<longrightarrow>
      list_all (\<lambda>(i, d). i < length pos \<and> fst d \<le> pos ! i \<and> pos ! i \<le> snd d) (enumerate n ds)"
    and "boundary_loop U pol pos (enumerate n ds) pos r = Inr (t, r')"
  shows "t = pos"
  using assms
proof (induction ds arbitrary: n r)
  case Nil
  then show ?case by simp
next
  case (Cons d ds)
  from Cons.prems obtain r1 where "boundary_loop U pol pos (enumerate (Suc n) ds) pos r1 = Inr (t, r')"
    by (cases pol) (auto split: if_splits)
  with Cons.IH [of "Suc n" r1] Cons.prems(1) show ?case by simp
qed

lemma move_position_stays:
  assumes "still s dims a" and "k < length (particles a)"
    and "move_position U a (particles a ! k) r = Inr (t, r')"
  shows "t = position (particles a ! k)"
proof -
  let ?p = "particles a ! k"
  have l: "length (velocity ?p) = length (position ?p)"
    using assms(1,2) by (simp add: still_def list_all_length)
  obtain ds where ds: "search_dimension a = Some ds"
    and b: "boundary_loop U (boundary_policy a) (position ?p) (enumerate 0 ds) (position ?p) r = Inr (t, r')"
    using assms(1,3) l by (auto simp: move_position_def still_def np_add_zero_step split: option.splits)
  have "boundary_policy a = RANDOMREINIT \<longrightarrow> within_bounds ds (position ?p)"
    using assms(1,2) ds by (auto simp: still_def list_all_length)
  then have "boundary_policy a = RANDOMREINIT \<longrightarrow>
      list_all (\<lambda>(i, d). i < length (position ?p) \<and> fst d \<le> position ?p ! i \<and> position ?p ! i \<le> snd d)
        (enumerate 0 ds)"
    by (simp add: within_bounds_def)
  from boundary_loop_stays [OF this b] show ?thesis .
qed

lemma move_one_stays:
  "still s dims a \<Longrightarrow> particles (final_state (move_one U a k)) = particles a"
proof (cases "k < length (particles a)")
  case False
  then have "(particles a)[k := y] = particles a" for y by (simp add: list_update_beyond)
  then show ?thesis
    by (auto simp: move_one_def Let_def split: sum.splits prod.splits)
next
  case True
  assume st: "still s dims a"
  have "t = position (particles a ! k)"
    if "move_position U a (particles a ! k) (rng_pos a) = Inr (t, r')" for t r'
    using move_position_stays [OF st True that] .
  then show ?thesis
    by (auto simp: move_one_def Let_def update_position_def split: sum.splits prod.splits)
qed

lemma still_frame:
  assumes "still s dims a" and "same_config a b"
    and "map position (particles b) = map position (particles a)"
    and "map (\<lambda>p. length (velocity p)) (particles b) = map (\<lambda>p. length (velocity p)) (particles a)"
  shows "still s dims b"
proof -
  have l: "length (particles b) = length (particles a)"
    using assms(3) by (rule map_eq_imp_length_eq)
  have p: "position (particles b ! i) = position (particles a ! i)" if "i < length (particles a)" for i
    using that assms(3) l by (metis nth_map)
  have v: "length (velocity (particles b ! i)) = length (velocity (particles a ! i))"
    if "i < length (particles a)" for i
    using that assms(4) l by (metis (mono_tags, lifting) nth_map)
  show ?thesis
    using assms(1,2) l p v by (auto simp: still_def same_config_def list_all_length)
qed

lemma still_step:
  "still s dims a \<Longrightarrow> same_config a b \<Longrightarrow> list_all2 Q (particles a) (particles b) \<Longrightarrow>
   (\<And>x y. Q x y \<Longrightarrow> position y = position x \<and> length (velocity y) = length (velocity x)) \<Longrightarrow>
   still s dims b \<and> map position (particles b) = map position (particles a)"
  by (metis (mono_tags, lifting) list_all2_map_eq still_frame)

text \<open>
  C8, as amended. Let \<open>epsilon = 0\<close>, let position and velocity of every particle have the
  same shape, and let the policy be \<^verbatim>\<open>REFUSE\<close> or \<^verbatim>\<open>BOUNCE\<close>, or every particle be within the
  bounds. Then the move phase leaves every position as it was, whatever the finite
  velocities. So do any number of iterations and the loop of the run, as long as the
  velocities each move phase finds are finite. A velocity that the update has driven to
  \<^verbatim>\<open>inf\<close> is left out: its product with \<open>epsilon = 0\<close> is \<^verbatim>\<open>NaN\<close> in the program, which
  fails the bounds test, so that \<^verbatim>\<open>RANDOMREINIT\<close> draws the coordinate anew. The products of
  the model are exact on every real number; the hypotheses of finiteness keep the
  statement to the values on which the program computes the same product.
\<close>

theorem zero_step_keeps_positions:
  assumes eps: "epsilon s = 0"
    and shape: "list_all (\<lambda>p. length (velocity p) = length (position p)) (particles s)"
    and inb: "boundary_policy s = REFUSE \<or> boundary_policy s = BOUNCE \<or>
       search_dimension s = Some dims \<and> list_all (\<lambda>p. within_bounds dims (position p)) (particles s)"
  shows "(finite_velocities s \<longrightarrow>
            map position (particles (final_state (move_particles U s))) = map position (particles s)) \<and>
         (finite_moves U n s \<longrightarrow>
            map position (particles (final_state (sweeps U n s))) = map position (particles s)) \<and>
         (finite_moves U (nat (tpm_max_iter c - current_iter c)) s \<longrightarrow>
            map position (particles (final_state (run_loop U c s))) = map position (particles s))"
proof -
  let ?R = "\<lambda>a b. still s dims a \<longrightarrow> still s dims b \<and> map position (particles b) = map position (particles a)"
  have s: "still s dims s" using assms by (simp add: still_def)
  have tr: "?R a b \<Longrightarrow> ?R b c \<Longrightarrow> ?R a c" for a b c by simp
  have a: "?R a (final_state (assess_one a j))" for a j
  proof
    assume st: "still s dims a"
    show "still s dims (final_state (assess_one a j)) \<and>
        map position (particles (final_state (assess_one a j))) = map position (particles a)"
      using assess_one_frame [of a j]
      by (intro still_step [OF st, where Q = assessed_only]) (auto simp: assessed_only_def)
  qed
  have u: "?R a (final_state (update_one U a j))" for a j
  proof
    assume st: "still s dims a"
    show "still s dims (final_state (update_one U a j)) \<and>
        map position (particles (final_state (update_one U a j))) = map position (particles a)"
      using update_one_frame [of a U j]
      by (intro still_step [OF st, where Q = velocity_only]) (auto simp: velocity_only_def)
  qed
  have m: "?R a (final_state (move_one U a j))" for a j
  proof
    assume st: "still s dims a"
    have "particles (final_state (move_one U a j)) = particles a"
      using st by (rule move_one_stays)
    then show "still s dims (final_state (move_one U a j)) \<and>
        map position (particles (final_state (move_one U a j))) = map position (particles a)"
      using st move_one_frame [of a U j] by (simp add: still_def same_config_def)
  qed
  have sw: "?R a (final_state (sweep U a))" for a
    by (rule sweep_rel [where R = ?R]) (use a u m in \<open>auto\<close>)
  have "?R s (final_state (move_particles U s))"
    unfolding move_particles_def by (rule for_each_rel [where R = ?R]) (use m in \<open>auto\<close>)
  moreover have "?R s (final_state (sweeps U n s))"
    by (rule sweeps_rel [where R = ?R]) (use sw in \<open>auto\<close>)
  moreover have "?R s (final_state (run_loop U c s))"
    by (rule run_loop_rel [where R = ?R]) (use sw in \<open>auto\<close>)
  ultimately show ?thesis using s by simp
qed

text \<open>
  On the small swarm with the bound \<open>(0, 1)\<close> under \<^verbatim>\<open>RANDOMREINIT\<close>: the velocities are
  finite and change, the positions do not.
\<close>

theorem zero_step_keeps_positions_witness:
  "epsilon (example_swarm (0, 1) 0 RANDOMREINIT) = 0 \<and>
   finite_moves example_draws 1 (example_swarm (0, 1) 0 RANDOMREINIT) \<and>
   map position (particles (example_swarm (0, 1) 0 RANDOMREINIT)) = [[1 / 2], [1 / 4]] \<and>
   map velocity (particles (final_state (run_loop example_draws (TerminationPolicyManager_init 1)
      (example_swarm (0, 1) 0 RANDOMREINIT)))) = [[- (11 / 192)], [11 / 200]] \<and>
   map position (particles (final_state (run_loop example_draws (TerminationPolicyManager_init 1)
      (example_swarm (0, 1) 0 RANDOMREINIT)))) = [[1 / 2], [1 / 4]]"
proof -
  have e: "epsilon (example_swarm (0, 1) 0 RANDOMREINIT) = 0" by code_simp
  have l: "list_all (\<lambda>p. length (velocity p) = length (position p))
      (particles (example_swarm (0, 1) 0 RANDOMREINIT))"
    by code_simp
  have "search_dimension (example_swarm (0, 1) 0 RANDOMREINIT) = Some [(0, 1)]" by code_simp
  moreover have "list_all (\<lambda>p. within_bounds [(0, 1)] (position p))
      (particles (example_swarm (0, 1) 0 RANDOMREINIT))"
    by code_simp
  ultimately have b: "boundary_policy (example_swarm (0, 1) 0 RANDOMREINIT) = REFUSE \<or>
      boundary_policy (example_swarm (0, 1) 0 RANDOMREINIT) = BOUNCE \<or>
      search_dimension (example_swarm (0, 1) 0 RANDOMREINIT) = Some [(0, 1)] \<and>
      list_all (\<lambda>p. within_bounds [(0, 1)] (position p)) (particles (example_swarm (0, 1) 0 RANDOMREINIT))"
    by simp
  have f: "finite_moves example_draws 1 (example_swarm (0, 1) 0 RANDOMREINIT)" by code_simp
  have n: "nat (tpm_max_iter (TerminationPolicyManager_init 1) -
      current_iter (TerminationPolicyManager_init 1)) = 1"
    by (simp add: TerminationPolicyManager_init_def)
  have p: "map position (particles (example_swarm (0, 1) 0 RANDOMREINIT)) = [[1 / 2], [1 / 4]]"
    by code_simp
  have v: "map velocity (particles (final_state (run_loop example_draws (TerminationPolicyManager_init 1)
      (example_swarm (0, 1) 0 RANDOMREINIT)))) = [[- (11 / 192)], [11 / 200]]"
    by code_simp
  from zero_step_keeps_positions [OF e l b, of example_draws 1 "TerminationPolicyManager_init 1"]
  show ?thesis using e f n p v by simp
qed

text \<open>
  C8 as stated fails. With the default bound \<open>(1, - 1)\<close> and one dimension set from an
  integer, the test \<open>1 \<le> x \<and> x \<le> - 1\<close> fails for the unmoved candidate, and
  \<^verbatim>\<open>RANDOMREINIT\<close> draws a new coordinate: the move phase of the first iteration takes the
  particles from \<open>0\<close> and \<open>1/2\<close> to \<open>5/6\<close> and \<open>11/13\<close> although \<open>epsilon = 0\<close>.
\<close>

theorem zero_step_move_counterexample:
  "search_dimension (final_state (set_search_dimensions
      (set_fitness_fn (PSO_init 2 1 (1, - 1) (1 / 10) (13 / 10) (14 / 10) (13 / 10) 0 RANDOMREINIT 1)
         example_fitness) (DimInt 1))) = Some [(1, - 1)] \<and>
   epsilon (final_state (update_particle example_draws
      (final_state (pso_assess_fitness (example_swarm (1, - 1) 0 RANDOMREINIT))))) = 0 \<and>
   map position (particles (final_state (update_particle example_draws
      (final_state (pso_assess_fitness (example_swarm (1, - 1) 0 RANDOMREINIT)))))) = [[0], [1 / 2]] \<and>
   map position (particles (final_state (move_particles example_draws
      (final_state (update_particle example_draws
        (final_state (pso_assess_fitness (example_swarm (1, - 1) 0 RANDOMREINIT)))))))) =
     [[5 / 6], [11 / 13]] \<and>
   map position (particles (final_state (run example_draws example_perm
      (example_config (1, - 1) 0 RANDOMREINIT)))) \<noteq>
   map position (particles (example_swarm (1, - 1) 0 RANDOMREINIT))"
  by code_simp

section \<open>What a loop does to each particle\<close>

lemma for_each_local:
  assumes step: "\<And>a k a'. C a \<Longrightarrow> k < length (particles a) \<Longrightarrow> body a k = Inr a' \<Longrightarrow>
      C a' \<and> particles a' = (particles a)[k := F (particles a ! k) (rng_pos a)] \<and>
      rng_pos a' = rng_pos a + N (particles a ! k)"
  shows "C s \<Longrightarrow> for_each body ks s = Inr s' \<Longrightarrow> distinct ks \<Longrightarrow>
         \<forall>k\<in>set ks. k < length (particles s) \<Longrightarrow>
     C s' \<and> length (particles s') = length (particles s) \<and>
     rng_pos s' = rng_pos s + sum_list (map (\<lambda>j. N (particles s ! j)) ks) \<and>
     (\<forall>k<length (particles s). particles s' ! k =
        (if k \<in> set ks
         then F (particles s ! k)
               (rng_pos s + sum_list (map (\<lambda>j. N (particles s ! j)) (takeWhile (\<lambda>j. j \<noteq> k) ks)))
         else particles s ! k))"
proof (induction ks arbitrary: s)
  case Nil
  then show ?case by simp
next
  case (Cons k0 ks)
  from Cons.prems(2) obtain a1 where b: "body s k0 = Inr a1" and f: "for_each body ks a1 = Inr s'"
    by (auto split: sum.splits)
  have k0: "k0 < length (particles s)" "k0 \<notin> set ks" "distinct ks"
    using Cons.prems(3,4) by simp_all
  from step [OF Cons.prems(1) k0(1) b] have c1: "C a1"
    and p1: "particles a1 = (particles s)[k0 := F (particles s ! k0) (rng_pos s)]"
    and r1: "rng_pos a1 = rng_pos s + N (particles s ! k0)"
    by simp_all
  have same: "particles a1 ! j = particles s ! j" if "j \<in> set ks" for j
    using that k0 p1 by (auto simp: nth_list_update)
  have len: "length (particles a1) = length (particles s)" using p1 by simp
  have "\<forall>k\<in>set ks. k < length (particles a1)" using Cons.prems(4) len by simp
  from Cons.IH [OF c1 f k0(3) this]
  have ih: "C s'" "length (particles s') = length (particles a1)"
    "rng_pos s' = rng_pos a1 + sum_list (map (\<lambda>j. N (particles a1 ! j)) ks)"
    "\<forall>k<length (particles a1). particles s' ! k =
        (if k \<in> set ks
         then F (particles a1 ! k)
               (rng_pos a1 + sum_list (map (\<lambda>j. N (particles a1 ! j)) (takeWhile (\<lambda>j. j \<noteq> k) ks)))
         else particles a1 ! k)"
    by simp_all
  have sum_eq: "sum_list (map (\<lambda>j. N (particles a1 ! j)) xs) = sum_list (map (\<lambda>j. N (particles s ! j)) xs)"
    if "set xs \<subseteq> set ks" for xs
    using that same by (intro arg_cong [where f = sum_list] map_cong) auto
  have tw: "set (takeWhile P ks) \<subseteq> set ks" for P by (auto dest: set_takeWhileD)
  show ?case
  proof (intro conjI allI impI)
    show "C s'" by (rule ih(1))
    show "length (particles s') = length (particles s)" using ih(2) len by simp
    show "rng_pos s' = rng_pos s + sum_list (map (\<lambda>j. N (particles s ! j)) (k0 # ks))"
      using ih(3) r1 sum_eq [of ks] by simp
  next
    fix k assume k: "k < length (particles s)"
    show "particles s' ! k =
        (if k \<in> set (k0 # ks)
         then F (particles s ! k)
               (rng_pos s + sum_list (map (\<lambda>j. N (particles s ! j)) (takeWhile (\<lambda>j. j \<noteq> k) (k0 # ks))))
         else particles s ! k)"
    proof (cases "k = k0")
      case True
      then show ?thesis using ih(4) k len k0 p1 by simp
    next
      case False
      show ?thesis
      proof (cases "k \<in> set ks")
        case True
        then show ?thesis
          using ih(4) k len False r1 same [OF True] sum_eq [OF tw, of "\<lambda>j. j \<noteq> k"]
          by (simp add: add.assoc)
      next
        case notin: False
        then show ?thesis using ih(4) k len False p1 by simp
      qed
    qed
  qed
qed

lemma takeWhile_upt: "k < n \<Longrightarrow> takeWhile (\<lambda>j. j \<noteq> k) [0..<n] = [0..<k]"
proof -
  assume "k < n"
  then have "[0..<n] = [0..<k] @ k # [Suc k..<n]"
    by (metis le0 upt_add_eq_append upt_conv_Cons less_imp_add_positive add.commute le_add2 less_or_eq_imp_le  upt_rec zero_less_Suc)
  moreover have "takeWhile (\<lambda>j. j \<noteq> k) ([0..<k] @ k # [Suc k..<n]) = [0..<k]"
    by (subst takeWhile_append2) auto
  ultimately show ?thesis by simp
qed

lemma sum_list_moving:
  "sum_list (map (\<lambda>j. if P j then 0 else c) xs) = c * length (filter (\<lambda>j. \<not> P j) xs)"
  by (induction xs) simp_all

lemma for_each_succeeds:
  assumes "\<And>a k. C a \<Longrightarrow> k < length (particles a) \<Longrightarrow>
      \<exists>a'. body a k = Inr a' \<and> C a' \<and> length (particles a') = length (particles a)"
  shows "C s \<Longrightarrow> \<forall>k\<in>set ks. k < length (particles s) \<Longrightarrow> \<exists>s'. for_each body ks s = Inr s' \<and> C s'"
proof (induction ks arbitrary: s)
  case Nil
  then show ?case by simp
next
  case (Cons k ks)
  from assms [OF Cons.prems(1), of k] Cons.prems(2)
  obtain a' where "body s k = Inr a'" "C a'" "length (particles a') = length (particles s)"
    by auto
  with Cons.IH [of a'] Cons.prems(2) show ?case by simp
qed

section \<open>The default bound\<close>

lemma boundary_loop_refuse_inverted:
  assumes "list_all (\<lambda>d. snd d < fst d) ds" and "n + length ds \<le> length temp"
    and "length pos = length temp"
  shows "\<exists>t. boundary_loop U REFUSE pos (enumerate n ds) temp r = Inr (t, r) \<and>
           length t = length temp \<and>
           (\<forall>j<length temp. t ! j = (if n \<le> j \<and> j < n + length ds then pos ! j else temp ! j))"
  using assms
proof (induction ds arbitrary: n temp)
  case Nil
  then show ?case by simp
next
  case (Cons d ds)
  have d: "snd d < fst d" and n: "n < length temp" using Cons.prems by simp_all
  from Cons.IH [of "Suc n" "temp[n := pos ! n]"] Cons.prems
  obtain t where t: "boundary_loop U REFUSE pos (enumerate (Suc n) ds) (temp[n := pos ! n]) r = Inr (t, r)"
    "length t = length temp"
    "\<forall>j<length temp. t ! j = (if Suc n \<le> j \<and> j < Suc n + length ds then pos ! j else temp[n := pos ! n] ! j)"
    by auto
  have "boundary_loop U REFUSE pos (enumerate n (d # ds)) temp r = Inr (t, r)"
    using d n t(1) Cons.prems(3) by auto
  moreover have "\<forall>j<length temp. t ! j = (if n \<le> j \<and> j < n + length (d # ds) then pos ! j else temp ! j)"
    using t(3) n by (auto simp: nth_list_update)
  ultimately show ?case using t(2) by blast
qed

lemma boundary_loop_reinit_inverted:
  assumes "list_all (\<lambda>d. snd d < fst d) ds" and "n + length ds \<le> length temp"
  shows "\<exists>t. boundary_loop U RANDOMREINIT pos (enumerate n ds) temp r = Inr (t, r + length ds) \<and>
           length t = length temp \<and>
           (\<forall>j<length temp. t ! j =
              (if n \<le> j \<and> j < n + length ds
               then uniform (fst (ds ! (j - n))) (snd (ds ! (j - n))) (U (r + (j - n)))
               else temp ! j))"
  using assms
proof (induction ds arbitrary: n temp r)
  case Nil
  then show ?case by simp
next
  case (Cons d ds)
  have d: "snd d < fst d" and n: "n < length temp" using Cons.prems by simp_all
  let ?temp1 = "temp[n := uniform (fst d) (snd d) (U r)]"
  from Cons.IH [of "Suc n" ?temp1 "Suc r"] Cons.prems
  obtain t where t: "boundary_loop U RANDOMREINIT pos (enumerate (Suc n) ds) ?temp1 (Suc r) = Inr (t, Suc r + length ds)"
    "length t = length temp"
    "\<forall>j<length temp. t ! j =
       (if Suc n \<le> j \<and> j < Suc n + length ds
        then uniform (fst (ds ! (j - Suc n))) (snd (ds ! (j - Suc n))) (U (Suc r + (j - Suc n)))
        else ?temp1 ! j)"
    by auto
  have "boundary_loop U RANDOMREINIT pos (enumerate n (d # ds)) temp r = Inr (t, r + length (d # ds))"
    using d n t(1) by auto
  moreover have "t ! j =
       (if n \<le> j \<and> j < n + length (d # ds)
        then uniform (fst ((d # ds) ! (j - n))) (snd ((d # ds) ! (j - n))) (U (r + (j - n)))
        else temp ! j)" if j: "j < length temp" for j
  proof (cases "j = n")
    case True
    then show ?thesis using t(3) n by simp
  next
    case False
    show ?thesis
    proof (cases "Suc n \<le> j \<and> j < Suc n + length ds")
      case True
      then have "j - n = Suc (j - Suc n)" by arith
      then show ?thesis using t(3) j True by simp
    next
      case f: False
      then show ?thesis using t(3) j False by auto
    qed
  qed
  ultimately show ?case using t(2) by blast
qed

lemma np_add_same_shape:
  "length v = length pos \<Longrightarrow> \<exists>temp. np_add pos (np_scale e v) = Inr temp \<and> length temp = length pos"
  by (simp add: np_add_def np_scale_def)

lemma move_position_refuse_inverted:
  assumes "search_dimension s = Some dims" and "boundary_policy s = REFUSE"
    and "list_all (\<lambda>d. snd d < fst d) dims"
    and "length (position p) = length dims" and "length (velocity p) = length dims"
  shows "move_position U s p r = Inr (position p, r)"
proof -
  obtain temp where temp: "np_add (position p) (np_scale (epsilon s) (velocity p)) = Inr temp"
    "length temp = length (position p)"
    using np_add_same_shape [of "velocity p" "position p"] assms(4,5) by auto
  from boundary_loop_refuse_inverted [OF assms(3), of 0 temp "position p" U r]
  obtain t where t: "boundary_loop U REFUSE (position p) (enumerate 0 dims) temp r = Inr (t, r)"
    "length t = length temp" "\<forall>j<length temp. t ! j = position p ! j"
    using temp(2) assms(4) by auto
  have "t = position p" using t(2,3) temp(2) by (simp add: list_eq_iff_nth_eq)
  then show ?thesis using temp(1) t(1) assms(1,2) by (simp add: move_position_def)
qed

lemma move_position_reinit_inverted:
  assumes "search_dimension s = Some dims" and "boundary_policy s = RANDOMREINIT"
    and "list_all (\<lambda>d. snd d < fst d) dims"
    and "length (position p) = length dims" and "length (velocity p) = length dims"
  shows "move_position U s p r =
     Inr (map (\<lambda>i. uniform (fst (dims ! i)) (snd (dims ! i)) (U (r + i))) [0..<length dims],
          r + length dims)"
proof -
  obtain temp where temp: "np_add (position p) (np_scale (epsilon s) (velocity p)) = Inr temp"
    "length temp = length (position p)"
    using np_add_same_shape [of "velocity p" "position p"] assms(4,5) by auto
  from boundary_loop_reinit_inverted [OF assms(3), of 0 temp U "position p" r]
  obtain t where t: "boundary_loop U RANDOMREINIT (position p) (enumerate 0 dims) temp r = Inr (t, r + length dims)"
    "length t = length temp"
    "\<forall>j<length temp. t ! j = uniform (fst (dims ! j)) (snd (dims ! j)) (U (r + j))"
    using temp(2) assms(4) by auto
  have "t = map (\<lambda>i. uniform (fst (dims ! i)) (snd (dims ! i)) (U (r + i))) [0..<length dims]"
  proof (rule nth_equalityI)
    show "length t = length (map (\<lambda>i. uniform (fst (dims ! i)) (snd (dims ! i)) (U (r + i))) [0..<length dims])"
      using t(2) temp(2) assms(4) by simp
    fix j assume "j < length t"
    then show "t ! j = map (\<lambda>i. uniform (fst (dims ! i)) (snd (dims ! i)) (U (r + i))) [0..<length dims] ! j"
      using t(2,3) temp(2) assms(4) by simp
  qed
  then show ?thesis using temp(1) t(1) assms(1,2) by (simp add: move_position_def)
qed

lemma move_one_refuse_inverted:
  assumes "list_all (\<lambda>d. snd d < fst d) dims"
    and "search_dimension a = Some dims \<and> boundary_policy a = REFUSE \<and> shaped (length dims) a"
    and "k < length (particles a)"
  shows "move_one U a k = Inr a"
proof -
  have "length (position (particles a ! k)) = length dims \<and> length (velocity (particles a ! k)) = length dims"
    using assms(2,3) by (simp add: shaped_def list_all_length)
  then have "move_position U a (particles a ! k) (rng_pos a) = Inr (position (particles a ! k), rng_pos a)"
    using assms(1,2) by (intro move_position_refuse_inverted) auto
  then show ?thesis by (simp add: move_one_def Let_def update_position_def)
qed

lemma move_one_reinit_inverted:
  assumes "list_all (\<lambda>d. snd d < fst d) dims"
    and "search_dimension a = Some dims \<and> boundary_policy a = RANDOMREINIT \<and> shaped (length dims) a"
    and "k < length (particles a)"
  shows "\<exists>a'. move_one U a k = Inr a' \<and>
     (search_dimension a' = Some dims \<and> boundary_policy a' = RANDOMREINIT \<and> shaped (length dims) a') \<and>
     particles a' = (particles a)[k :=
        (if frozen (particles a ! k) then particles a ! k
         else update_position (particles a ! k)
           (map (\<lambda>i. uniform (fst (dims ! i)) (snd (dims ! i)) (U (rng_pos a + i))) [0..<length dims]))] \<and>
     rng_pos a' = rng_pos a + (if frozen (particles a ! k) then 0 else length dims)"
proof (cases "frozen (particles a ! k)")
  case True
  then show ?thesis using assms(2) by (simp add: move_one_def)
next
  case False
  have l: "length (position (particles a ! k)) = length dims \<and> length (velocity (particles a ! k)) = length dims"
    using assms(2,3) by (simp add: shaped_def list_all_length)
  then have "move_position U a (particles a ! k) (rng_pos a) =
      Inr (map (\<lambda>i. uniform (fst (dims ! i)) (snd (dims ! i)) (U (rng_pos a + i))) [0..<length dims],
           rng_pos a + length dims)"
    using assms(1,2) by (intro move_position_reinit_inverted) auto
  then show ?thesis using False assms(2) l
    by (auto simp: move_one_def Let_def update_position_def shaped_def intro!: list_all_update)
qed

lemma move_particles_refuse_inverted:
  assumes inv: "list_all (\<lambda>d. snd d < fst d) dims"
    and s: "search_dimension s = Some dims" "boundary_policy s = REFUSE" "shaped (length dims) s"
  shows "move_particles U s = Inr s"
proof -
  let ?C = "\<lambda>a. a = s"
  have "\<exists>s'. for_each (move_one U) [0..<length (particles s)] s = Inr s' \<and> ?C s'"
  proof (rule for_each_succeeds [where C = ?C])
    fix a k assume "a = s" "k < length (particles a)"
    then show "\<exists>a'. move_one U a k = Inr a' \<and> a' = s \<and> length (particles a') = length (particles a)"
      using move_one_refuse_inverted [OF inv, of a k U] s by simp
  qed simp_all
  then show ?thesis by (simp add: move_particles_def)
qed

lemma move_particles_reinit_inverted:
  assumes inv: "list_all (\<lambda>d. snd d < fst d) dims"
    and s: "search_dimension s = Some dims" "boundary_policy s = RANDOMREINIT" "shaped (length dims) s"
  shows "\<exists>s'. move_particles U s = Inr s' \<and>
     (\<forall>k<length (particles s). \<not> frozen (particles s ! k) \<longrightarrow>
        position (particles s' ! k) =
          map (\<lambda>i. uniform (fst (dims ! i)) (snd (dims ! i))
                 (U (rng_pos s + length dims * moving_before s k + i))) [0..<length dims])"
proof -
  let ?C = "\<lambda>a. search_dimension a = Some dims \<and> boundary_policy a = RANDOMREINIT \<and> shaped (length dims) a"
  let ?F = "\<lambda>p r. if frozen p then p
     else update_position p (map (\<lambda>i. uniform (fst (dims ! i)) (snd (dims ! i)) (U (r + i))) [0..<length dims])"
  let ?N = "\<lambda>p. if frozen p then 0 else length dims"
  let ?ks = "[0..<length (particles s)]"
  have "\<exists>s'. for_each (move_one U) ?ks s = Inr s' \<and> ?C s'"
  proof (rule for_each_succeeds [where C = ?C])
    fix a k assume "?C a" "k < length (particles a)"
    then show "\<exists>a'. move_one U a k = Inr a' \<and> ?C a' \<and> length (particles a') = length (particles a)"
      using move_one_reinit_inverted [OF inv, of a k U] by auto
  qed (use s in simp_all)
  then obtain s' where s': "for_each (move_one U) ?ks s = Inr s'" by blast
  have loc: "?C s' \<and> length (particles s') = length (particles s) \<and>
     rng_pos s' = rng_pos s + sum_list (map (\<lambda>j. ?N (particles s ! j)) ?ks) \<and>
     (\<forall>k<length (particles s). particles s' ! k =
        (if k \<in> set ?ks
         then ?F (particles s ! k)
               (rng_pos s + sum_list (map (\<lambda>j. ?N (particles s ! j)) (takeWhile (\<lambda>j. j \<noteq> k) ?ks)))
         else particles s ! k))"
  proof (rule for_each_local [where C = ?C and body = "move_one U" and F = ?F and N = ?N])
    fix a k a' assume "?C a" "k < length (particles a)" "move_one U a k = Inr a'"
    then show "?C a' \<and> particles a' = (particles a)[k := ?F (particles a ! k) (rng_pos a)] \<and>
        rng_pos a' = rng_pos a + ?N (particles a ! k)"
      using move_one_reinit_inverted [OF inv, of a k U] by auto
  qed (use s s' in simp_all)
  have "position (particles s' ! k) =
          map (\<lambda>i. uniform (fst (dims ! i)) (snd (dims ! i))
                 (U (rng_pos s + length dims * moving_before s k + i))) [0..<length dims]"
    if k: "k < length (particles s)" and m: "\<not> frozen (particles s ! k)" for k
  proof -
    have "sum_list (map (\<lambda>j. ?N (particles s ! j)) (takeWhile (\<lambda>j. j \<noteq> k) ?ks)) =
        length dims * moving_before s k"
      using k by (simp add: takeWhile_upt sum_list_moving moving_before_def)
    then show ?thesis using loc k m by (simp add: update_position_def)
  qed
  then show ?thesis using s' by (auto simp: move_particles_def)
qed

lemma shaped_step:
  "shaped D a \<Longrightarrow> list_all2 Q (particles a) (particles b) \<Longrightarrow>
   (\<And>x y. Q x y \<Longrightarrow> position y = position x \<and> length (velocity y) = length (velocity x)) \<Longrightarrow>
   shaped D b \<and> map position (particles b) = map position (particles a)"
proof -
  assume a: "shaped D a" and q: "list_all2 Q (particles a) (particles b)"
    and r: "\<And>x y. Q x y \<Longrightarrow> position y = position x \<and> length (velocity y) = length (velocity x)"
  have "list_all (\<lambda>p. length (position p) = D \<and> length (velocity p) = D) (particles b)"
    using q _ a [unfolded shaped_def] by (rule list_all2_list_all) (use r in auto)
  moreover have "map position (particles b) = map position (particles a)"
    using list_all2_map_eq [OF q, of position] r by simp
  ultimately show ?thesis by (simp add: shaped_def)
qed

lemma refuse_inverted_run:
  assumes inv: "list_all (\<lambda>d. snd d < fst d) dims"
    and s: "search_dimension s = Some dims" "boundary_policy s = REFUSE" "shaped (length dims) s"
  shows "map position (particles (final_state (sweeps U n s))) = map position (particles s) \<and>
         map position (particles (final_state (run_loop U c s))) = map position (particles s)"
proof -
  let ?P = "\<lambda>a. search_dimension a = Some dims \<and> boundary_policy a = REFUSE \<and> shaped (length dims) a"
  let ?R = "\<lambda>a b. ?P a \<longrightarrow> ?P b \<and> map position (particles b) = map position (particles a)"
  have a: "?R a (final_state (assess_one a j))" for a j
    using assess_one_frame [of a j]
    by (auto simp: same_config_def assessed_only_def dest: shaped_step [where Q = assessed_only])
  have u: "?R a (final_state (update_one U a j))" for a j
    using update_one_frame [of a U j]
    by (auto simp: same_config_def velocity_only_def dest: shaped_step [where Q = velocity_only])
  have m: "?R a (final_state (move_one U a j))" for a j
  proof (cases "j < length (particles a)")
    case True
    then show ?thesis using move_one_refuse_inverted [OF inv, of a j U] by auto
  next
    case False
    then have "(particles a)[j := y] = particles a" for y by (simp add: list_update_beyond)
    then have "particles (final_state (move_one U a j)) = particles a"
      by (auto simp: move_one_def Let_def split: sum.splits prod.splits)
    then show ?thesis using move_one_frame [of a U j] by (simp add: same_config_def shaped_def)
  qed
  have sw: "?R a (final_state (sweep U a))" for a
    by (rule sweep_rel [where R = ?R]) (use a u m in \<open>auto\<close>)
  have "?R s (final_state (sweeps U n s))"
    by (rule sweeps_rel [where R = ?R]) (use sw in \<open>auto\<close>)
  moreover have "?R s (final_state (run_loop U c s))"
    by (rule run_loop_rel [where R = ?R]) (use sw in \<open>auto\<close>)
  ultimately show ?thesis using s by simp
qed

text \<open>
  C10. Let the search dimensions be set from an integer \<open>n\<close> while the bound is the
  default \<open>(1, - 1)\<close>. Then they are \<open>n\<close> copies of \<open>(1, - 1)\<close>, every pair has its first
  component above its second, and the test \<open>d[0] \<le> x \<and> x \<le> d[1]\<close> fails for every \<open>x\<close>.
  In a swarm whose vectors have \<open>n\<close> coordinates the move phase then returns, and
  \<^item> under \<^verbatim>\<open>REFUSE\<close> no position changes, in the move phase, in any number of iterations
    and in the loop of the run;
  \<^item> under \<^verbatim>\<open>RANDOMREINIT\<close> every coordinate of every moving particle is drawn anew as
    \<^verbatim>\<open>uniform(1, -1)\<close>, the particle at index \<open>k\<close> reading the \<open>n\<close> draws that follow those
    of the moving particles before it.
\<close>

theorem default_bound_rejects_every_candidate:
  assumes bound: "boundary c = (1, - 1)"
    and dims: "search_dimension s = search_dimension (final_state (set_search_dimensions c (DimInt n)))"
    and shape: "shaped (nat n) s"
  shows "set_search_dimensions c (DimInt n) =
           Inr (c\<lparr>search_dimension := Some (replicate (nat n) (1, - 1)), search_dimension_set := True\<rparr>) \<and>
         list_all (\<lambda>d. snd d < fst d \<and> \<not> (fst d \<le> x \<and> x \<le> snd d))
           (replicate (nat n) (1 :: real, - 1 :: real)) \<and>
         (boundary_policy s = REFUSE \<longrightarrow>
            (\<exists>s'. move_particles U s = Inr s' \<and> map position (particles s') = map position (particles s)) \<and>
            map position (particles (final_state (sweeps U m s))) = map position (particles s) \<and>
            map position (particles (final_state (run_loop U ctl s))) = map position (particles s)) \<and>
         (boundary_policy s = RANDOMREINIT \<longrightarrow>
            (\<exists>s'. move_particles U s = Inr s' \<and>
               (\<forall>k<length (particles s). \<not> frozen (particles s ! k) \<longrightarrow>
                  position (particles s' ! k) =
                    map (\<lambda>i. uniform 1 (- 1) (U (rng_pos s + nat n * moving_before s k + i))) [0..<nat n])))"
proof -
  let ?dims = "replicate (nat n) (1 :: real, - 1 :: real)"
  have set: "set_search_dimensions c (DimInt n) =
      Inr (c\<lparr>search_dimension := Some ?dims, search_dimension_set := True\<rparr>)"
    using bound by (simp add: set_search_dimensions_def)
  then have sd: "search_dimension s = Some ?dims" using dims by simp
  have inv: "list_all (\<lambda>d. snd d < fst d) ?dims" by (simp add: list_all_length)
  have test: "list_all (\<lambda>d. snd d < fst d \<and> \<not> (fst d \<le> x \<and> x \<le> snd d)) ?dims"
    by (simp add: list_all_length)
  have sh: "shaped (length ?dims) s" using shape by simp
  have refuse: "(\<exists>s'. move_particles U s = Inr s' \<and> map position (particles s') = map position (particles s)) \<and>
            map position (particles (final_state (sweeps U m s))) = map position (particles s) \<and>
            map position (particles (final_state (run_loop U ctl s))) = map position (particles s)"
    if "boundary_policy s = REFUSE"
    using move_particles_refuse_inverted [OF inv sd that sh, of U]
      refuse_inverted_run [OF inv sd that sh, of U m ctl] by simp
  have reinit: "\<exists>s'. move_particles U s = Inr s' \<and>
               (\<forall>k<length (particles s). \<not> frozen (particles s ! k) \<longrightarrow>
                  position (particles s' ! k) =
                    map (\<lambda>i. uniform 1 (- 1) (U (rng_pos s + nat n * moving_before s k + i))) [0..<nat n])"
    if "boundary_policy s = RANDOMREINIT"
  proof -
    from move_particles_reinit_inverted [OF inv sd that sh, of U]
    obtain s' where s': "move_particles U s = Inr s'"
      "\<forall>k<length (particles s). \<not> frozen (particles s ! k) \<longrightarrow>
        position (particles s' ! k) =
          map (\<lambda>i. uniform (fst (?dims ! i)) (snd (?dims ! i))
                 (U (rng_pos s + length ?dims * moving_before s k + i))) [0..<length ?dims]"
      by blast
    have "map (\<lambda>i. uniform (fst (?dims ! i)) (snd (?dims ! i)) (U (r + i))) [0..<length ?dims] =
        map (\<lambda>i. uniform 1 (- 1) (U (r + i))) [0..<nat n]" for r
      by (rule nth_equalityI) simp_all
    with s' show ?thesis by auto
  qed
  show ?thesis using set test refuse reinit by blast
qed

text \<open>
  The small swarm with the default bound, in the move phase of its first iteration: the
  particles at \<open>0\<close> and \<open>1/2\<close> are drawn anew, at \<open>5/6\<close> and \<open>11/13\<close>.
\<close>

theorem default_bound_rejects_every_candidate_witness:
  "boundary (PSO_init 2 1 (1, - 1) (1 / 10) (13 / 10) (14 / 10) (13 / 10) (1 / 10) RANDOMREINIT 1) = (1, - 1) \<and>
   map position (particles (example_before_move (1, - 1) (1 / 10) RANDOMREINIT)) = [[0], [1 / 2]] \<and>
   (\<exists>s'. move_particles example_draws (example_before_move (1, - 1) (1 / 10) RANDOMREINIT) = Inr s' \<and>
      position (particles s' ! 0) = [5 / 6] \<and> position (particles s' ! 1) = [11 / 13])"
proof -
  let ?c = "PSO_init 2 1 (1, - 1) (1 / 10) (13 / 10) (14 / 10) (13 / 10) (1 / 10) RANDOMREINIT 1"
  let ?s = "example_before_move (1, - 1) (1 / 10) RANDOMREINIT"
  have b: "boundary ?c = (1, - 1)" by code_simp
  have d: "search_dimension ?s = search_dimension (final_state (set_search_dimensions ?c (DimInt 1)))"
    by code_simp
  have sh: "shaped (nat 1) ?s" by code_simp
  have p: "boundary_policy ?s = RANDOMREINIT" by code_simp
  have k: "0 < length (particles ?s)" "1 < length (particles ?s)"
    "\<not> frozen (particles ?s ! 0)" "\<not> frozen (particles ?s ! 1)"
    by code_simp+
  have v: "map (\<lambda>i. uniform 1 (- 1) (example_draws (rng_pos ?s + nat 1 * moving_before ?s 0 + i))) [0..<nat 1] = [5 / 6]"
    "map (\<lambda>i. uniform 1 (- 1) (example_draws (rng_pos ?s + nat 1 * moving_before ?s 1 + i))) [0..<nat 1] = [11 / 13]"
    by code_simp+
  have q: "map position (particles ?s) = [[0], [1 / 2]]" by code_simp
  from default_bound_rejects_every_candidate [OF b d sh, of 0 example_draws 0 "TerminationPolicyManager_init 1"] p
  obtain s' where s': "move_particles example_draws ?s = Inr s'"
    "\<forall>k<length (particles ?s). \<not> frozen (particles ?s ! k) \<longrightarrow>
        position (particles s' ! k) =
          map (\<lambda>i. uniform 1 (- 1) (example_draws (rng_pos ?s + nat 1 * moving_before ?s k + i))) [0..<nat 1]"
    by blast
  have "position (particles s' ! 0) = [5 / 6]" "position (particles s' ! 1) = [11 / 13]"
    using s'(2) k v by metis+
  with s'(1) b q show ?thesis by blast
qed

section \<open>The informants\<close>

lemma make_particles_length: "length (fst (make_particles U ds f n r)) = n"
proof (induction n arbitrary: r)
  case 0
  show ?case by simp
next
  case (Suc n)
  show ?case
    using Suc [of "snd (init_velocity U ds (snd (init_position U ds r)))"]
    by (auto split: prod.splits)
qed

lemma random_choice_ok:
  assumes perm: "\<forall>c xs. mset (perm c xs) = mset xs"
    and K: "0 \<le> K" "nat K < n" and k: "k < n"
  shows "\<exists>js. random_choice perm c (filter (\<lambda>j. j \<noteq> k) [0..<n]) K = Inr js \<and>
           length js = nat K \<and> distinct js \<and> k \<notin> set js \<and> (\<forall>j\<in>set js. j < n)"
proof -
  let ?pool = "filter (\<lambda>j. j \<noteq> k) [0..<n]"
  have m: "mset (perm c ?pool) = mset ?pool" using perm by blast
  have "length ?pool + length (filter (\<lambda>j. \<not> j \<noteq> k) [0..<n]) = n"
    using sum_length_filter_compl [of "\<lambda>j. j \<noteq> k" "[0..<n]"] by simp
  moreover have "filter (\<lambda>j. \<not> j \<noteq> k) [0..<n] = [k]"
    using k by (induction n) auto
  ultimately have lp: "length ?pool = n - 1" by simp
  have l: "length (perm c ?pool) = n - 1" using m lp by (metis mset_eq_length)
  have d: "distinct (perm c ?pool)" using m by (metis distinct_filter distinct_upt mset_eq_imp_distinct_iff)
  have s: "set (perm c ?pool) = set ?pool" using m by (rule mset_eq_setD)
  let ?js = "take (nat K) (perm c ?pool)"
  have "random_choice perm c ?pool K = Inr ?js"
    using K lp by (simp add: random_choice_def)
  moreover have "length ?js = nat K" using l K by simp
  moreover have "distinct ?js" using d by simp
  moreover have "set ?js \<subseteq> set ?pool" using s by (metis set_take_subset)
  ultimately show ?thesis by auto
qed

lemma informants_loop_wired:
  assumes perm: "\<forall>c xs. mset (perm c xs) = mset xs"
    and K: "0 \<le> K" "nat K < n"
  shows "num_informants s = K \<Longrightarrow> length (particles s) = n \<Longrightarrow> distinct ks \<Longrightarrow>
         \<forall>k\<in>set ks. k < n \<Longrightarrow>
     \<exists>s'. for_each (informants_one perm) ks s = Inr s' \<and> length (particles s') = n \<and>
       (\<forall>k<n. if k \<in> set ks then wired n (nat K) k (particles s' ! k)
               else particles s' ! k = particles s ! k)"
proof (induction ks arbitrary: s)
  case Nil
  then show ?case by simp
next
  case (Cons k0 ks)
  have k0: "k0 < n" "k0 \<notin> set ks" using Cons.prems by simp_all
  from random_choice_ok [OF perm K k0(1), of "choice_pos s"]
  obtain js where js: "random_choice perm (choice_pos s) (filter (\<lambda>j. j \<noteq> k0) [0..<n]) K = Inr js"
    "length js = nat K" "distinct js" "k0 \<notin> set js" "\<forall>j\<in>set js. j < n"
    by blast
  let ?a = "s\<lparr>particles := (particles s)[k0 := set_informants (particles s ! k0) js],
               choice_pos := Suc (choice_pos s)\<rparr>"
  have one: "informants_one perm s k0 = Inr ?a"
    using js(1) Cons.prems(1,2) by (simp add: informants_one_def)
  have w: "wired n (nat K) k0 (particles ?a ! k0)"
    using js k0 Cons.prems(2) by (simp add: wired_def set_informants_def list_all_iff)
  from Cons.IH [of ?a] Cons.prems
  obtain s' where s': "for_each (informants_one perm) ks ?a = Inr s'" "length (particles s') = n"
    "\<forall>k<n. if k \<in> set ks then wired n (nat K) k (particles s' ! k)
               else particles s' ! k = particles ?a ! k"
    by auto
  have "for_each (informants_one perm) (k0 # ks) s = Inr s'" using one s'(1) by simp
  moreover have "\<forall>k<n. if k \<in> set (k0 # ks) then wired n (nat K) k (particles s' ! k)
               else particles s' ! k = particles s ! k"
    using s'(3) w k0 by (auto simp: nth_list_update)
  ultimately show ?case using s'(2) by blast
qed

lemma informants_stable:
  "map informants (particles (final_state (sweep U a))) = map informants (particles a) \<and>
   map informants (particles (final_state (sweeps U n a))) = map informants (particles a) \<and>
   map informants (particles (final_state (run_loop U c a))) = map informants (particles a)"
proof -
  let ?R = "\<lambda>a b. map informants (particles b) = map informants (particles a)"
  have a: "?R a (final_state (assess_one a j))" for a j
    using assess_one_frame [of a j]
    by (auto intro: list_all2_map_eq [symmetric] simp: assessed_only_def)
  have u: "?R a (final_state (update_one U a j))" for a j
    using update_one_frame [of a U j]
    by (auto intro: list_all2_map_eq [symmetric] simp: velocity_only_def)
  have m: "?R a (final_state (move_one U a j))" for a j
    using move_one_frame [of a U j]
    by (auto intro: list_all2_map_eq [symmetric] simp: position_only_def)
  have sw: "?R a (final_state (sweep U a))" for a
    by (rule sweep_rel [where R = ?R]) (use a u m in \<open>auto\<close>)
  have "?R a (final_state (sweeps U n a))"
    by (rule sweeps_rel [where R = ?R]) (use sw in \<open>auto\<close>)
  moreover have "?R a (final_state (run_loop U c a))"
    by (rule run_loop_rel [where R = ?R]) (use sw in \<open>auto\<close>)
  ultimately show ?thesis using sw [of a] by simp
qed

text \<open>
  C7. Let \<^verbatim>\<open>np.random.choice\<close> return a rearrangement of its pool cut to the sample size,
  let the fitness function and the search dimensions be set, and let
  \<open>0 \<le> num_informants < swarm_size\<close>. Then the instantiation of the particles returns, the
  swarm has \<open>swarm_size\<close> particles, and the informants of every particle are
  \<open>num_informants\<close> distinct particles of the swarm, none of them the particle itself.
  No phase writes the informants: they are the same after an iteration, after any number
  of iterations and at the end of the loop of the run, from any state.
\<close>

theorem informants_are_distinct_others:
  assumes perm: "\<forall>c xs. mset (perm c xs) = mset xs"
    and f: "fitness_fn s = Some f"
    and d: "search_dimension s = Some dims"
    and K: "0 \<le> num_informants s" "num_informants s < swarm_size s"
  shows "(\<exists>s'. instantiate_particles U perm s = Inr s' \<and>
            length (particles s') = nat (swarm_size s) \<and>
            (\<forall>k<nat (swarm_size s).
               length (informants (particles s' ! k)) = nat (num_informants s) \<and>
               distinct (informants (particles s' ! k)) \<and>
               k \<notin> set (informants (particles s' ! k)) \<and>
               list_all (\<lambda>j. j < nat (swarm_size s)) (informants (particles s' ! k)))) \<and>
         map informants (particles (final_state (sweep U a))) = map informants (particles a) \<and>
         map informants (particles (final_state (sweeps U n a))) = map informants (particles a) \<and>
         map informants (particles (final_state (run_loop U c a))) = map informants (particles a)"
proof -
  let ?n = "nat (swarm_size s)"
  obtain ps r where mp: "make_particles U dims f ?n (rng_pos s) = (ps, r)"
    by (cases "make_particles U dims f ?n (rng_pos s)")
  let ?s0 = "s\<lparr>particles := ps, rng_pos := r\<rparr>"
  have len: "length ps = ?n" using make_particles_length [of U dims f ?n "rng_pos s"] mp by simp
  have i: "instantiate_particles U perm s = for_each (informants_one perm) [0..<?n] ?s0"
    using f d K mp len by (simp add: instantiate_particles_def init_informants_def)
  have "nat (num_informants s) < ?n" using K by simp
  from informants_loop_wired [OF perm K(1) this, of ?s0 "[0..<?n]"] len
  obtain s' where s': "for_each (informants_one perm) [0..<?n] ?s0 = Inr s'" "length (particles s') = ?n"
    "\<forall>k<?n. wired ?n (nat (num_informants s)) k (particles s' ! k)"
    by auto
  show ?thesis using i s' informants_stable [of U a n c] by (auto simp: wired_def)
qed

text \<open>On the small swarm each of the two particles has the other as its informant.\<close>

theorem informants_are_distinct_others_witness:
  "map informants (particles (final_state (instantiate_particles example_draws example_perm
      (example_config (0, 1) (1 / 10) REFUSE)))) = [[1], [0]] \<and>
   (\<exists>s'. instantiate_particles example_draws example_perm (example_config (0, 1) (1 / 10) REFUSE) = Inr s' \<and>
      length (particles s') = 2 \<and> distinct (informants (particles s' ! 0)) \<and>
      0 \<notin> set (informants (particles s' ! 0)) \<and> length (informants (particles s' ! 0)) = 1) \<and>
   map informants (particles (final_state (run_loop example_draws (TerminationPolicyManager_init 1)
      (example_swarm (0, 1) (1 / 10) REFUSE)))) = [[1], [0]]"
proof -
  let ?c = "example_config (0, 1) (1 / 10) REFUSE"
  have p: "\<forall>c xs. mset (example_perm c xs) = mset xs" by (simp add: example_perm_def)
  have f: "fitness_fn ?c = Some example_fitness"
    by (simp add: example_config_def set_search_dimensions_def set_fitness_fn_def)
  have d: "search_dimension ?c = Some [(0, 1)]" by code_simp
  have K: "0 \<le> num_informants ?c" "num_informants ?c < swarm_size ?c" by code_simp+
  have n: "nat (swarm_size ?c) = 2" "nat (num_informants ?c) = 1" by code_simp+
  have v: "map informants (particles (final_state (instantiate_particles example_draws example_perm ?c))) = [[1], [0]]"
    "map informants (particles (example_swarm (0, 1) (1 / 10) REFUSE)) = [[1], [0]]"
    by code_simp+
  from informants_are_distinct_others [OF p f d K, where U = example_draws
      and a = "example_swarm (0, 1) (1 / 10) REFUSE" and n = 0
      and c = "TerminationPolicyManager_init 1"]
  show ?thesis using v n by auto
qed

section \<open>The best of the previous run\<close>

lemma init_informants_best:
  "best (final_state (init_informants perm s)) = best s \<and>
   previous_best (final_state (init_informants perm s)) = previous_best s"
  unfolding init_informants_def
  by (rule for_each_rel [where R = "\<lambda>s s'. best s' = best s \<and> previous_best s' = previous_best s"])
    (auto simp: informants_one_def Let_def split: sum.splits)

text \<open>
  The part of \<open>run\<close> before the loop assigns \<open>best\<close> and leaves \<open>previous_best\<close> as the
  run before left it.
\<close>

lemma run_start_keeps_previous_best:
  assumes "run_start U perm s = Inr s'"
  shows "best s' = Some \<lparr>location = [], fitness = - 9999\<rparr> \<and> previous_best s' = previous_best s"
proof -
  from assms obtain s1 where i: "instantiate_particles U perm s = Inr s1"
    and s': "s' = s1\<lparr>best := Some \<lparr>location = [], fitness = - 9999\<rparr>\<rparr>"
    by (auto simp: run_start_def split: if_splits sum.splits)
  have "previous_best (final_state (instantiate_particles U perm s)) = previous_best s"
    using init_informants_best [of perm "s\<lparr>particles := []\<rparr>"]
      init_informants_best [of perm "s\<lparr>particles := ps, rng_pos := r\<rparr>" for ps r]
    by (auto simp: instantiate_particles_def split: option.splits prod.splits)
  then show ?thesis using i s' by simp
qed

text \<open>
  C6 fails on the code. The small swarm improves its best twice in its one iteration, so
  the run ends with \<open>previous_best\<close> at the first particle's assessment. A second \<open>run\<close> on
  the same optimiser sets \<open>best\<close> to its sentinel and enters the loop with
  \<open>previous_best\<close> still at that assessment of the first run.
\<close>

theorem second_run_starts_with_stale_previous_best:
  "previous_best (final_state (run example_draws example_perm (example_config (0, 1) (1 / 10) REFUSE))) =
     Some \<lparr>location = [1 / 2], fitness = - (1 / 4)\<rparr> \<and>
   best (final_state (run_start example_draws example_perm
     (final_state (run example_draws example_perm (example_config (0, 1) (1 / 10) REFUSE))))) =
     Some \<lparr>location = [], fitness = - 9999\<rparr> \<and>
   previous_best (final_state (run_start example_draws example_perm
     (final_state (run example_draws example_perm (example_config (0, 1) (1 / 10) REFUSE))))) =
     Some \<lparr>location = [1 / 2], fitness = - (1 / 4)\<rparr>"
  by code_simp

section \<open>The policy that is not implemented\<close>

lemma boundary_loop_bounce:
  "n + length ds \<le> length temp \<Longrightarrow>
   boundary_loop U BOUNCE pos (enumerate n ds) temp r =
     (if list_all (\<lambda>(i, d). i < length temp \<and> fst d \<le> temp ! i \<and> temp ! i \<le> snd d) (enumerate n ds)
      then Inr (temp, r) else Inl (NotImplementedError, r))"
  by (induction ds arbitrary: n) auto

lemma move_position_bounce:
  assumes "search_dimension s = Some dims" and "boundary_policy s = BOUNCE"
    and "length (position p) = length dims" and "length (velocity p) = length dims"
  shows "move_position U s p r =
     (if within_bounds dims (candidate s p) then Inr (candidate s p, r)
      else Inl (NotImplementedError, r))"
proof -
  have "np_add (position p) (np_scale (epsilon s) (velocity p)) = Inr (candidate s p)"
    using assms(3,4) by (simp add: np_add_def np_scale_def candidate_def)
  moreover have "length (candidate s p) = length dims"
    using assms(3,4) by (simp add: candidate_def np_scale_def)
  ultimately show ?thesis
    using assms(1,2) boundary_loop_bounce [of 0 dims "candidate s p" U "position p" r]
    by (simp add: move_position_def within_bounds_def)
qed

lemma move_one_bounce:
  assumes "search_dimension a = Some dims" and "boundary_policy a = BOUNCE"
    and "shaped (length dims) a" and "k < length (particles a)"
  shows "move_one U a k =
     (if offends dims a k then Inl (NotImplementedError, a)
      else Inr (a\<lparr>particles := (particles a)[k :=
             (if frozen (particles a ! k) then particles a ! k
              else update_position (particles a ! k) (candidate a (particles a ! k)))]\<rparr>))"
proof -
  have l: "length (position (particles a ! k)) = length dims"
    "length (velocity (particles a ! k)) = length dims"
    using assms(3,4) by (simp_all add: shaped_def list_all_length)
  show ?thesis
    using move_position_bounce [OF assms(1,2) l, of U "rng_pos a"]
    by (simp add: move_one_def offends_def Let_def)
qed

lemma bounce_loop:
  "search_dimension s = Some dims \<Longrightarrow> boundary_policy s = BOUNCE \<Longrightarrow> shaped (length dims) s \<Longrightarrow>
   distinct ks \<Longrightarrow> \<forall>k\<in>set ks. k < length (particles s) \<Longrightarrow>
   raised (for_each (move_one U) ks s) =
     (if list_ex (offends dims s) ks then Some NotImplementedError else None) \<and>
   length (particles (final_state (for_each (move_one U) ks s))) = length (particles s) \<and>
   (\<forall>k<length (particles s). particles (final_state (for_each (move_one U) ks s)) ! k =
      (if k \<in> set (takeWhile (\<lambda>j. \<not> offends dims s j) ks) \<and> \<not> frozen (particles s ! k)
       then update_position (particles s ! k) (candidate s (particles s ! k))
       else particles s ! k))"
proof (induction ks arbitrary: s)
  case Nil
  then show ?case by simp
next
  case (Cons k0 ks)
  have k0: "k0 < length (particles s)" "k0 \<notin> set ks" "distinct ks"
    using Cons.prems(4,5) by simp_all
  note one = move_one_bounce [OF Cons.prems(1,2,3) k0(1), of U]
  show ?case
  proof (cases "offends dims s k0")
    case True
    then show ?thesis using one by simp
  next
    case False
    let ?p = "if frozen (particles s ! k0) then particles s ! k0
              else update_position (particles s ! k0) (candidate s (particles s ! k0))"
    let ?a = "s\<lparr>particles := (particles s)[k0 := ?p]\<rparr>"
    have step: "for_each (move_one U) (k0 # ks) s = for_each (move_one U) ks ?a"
      using one False by simp
    have lenp: "length (position ?p) = length dims \<and> length (velocity ?p) = length dims"
      using Cons.prems(3) k0(1)
      by (simp add: shaped_def list_all_length update_position_def candidate_def np_scale_def)
    have sh: "shaped (length dims) ?a"
      using Cons.prems(3) lenp by (simp add: shaped_def list_all_update)
    have same: "particles ?a ! j = particles s ! j" if "j \<in> set ks" for j
    proof -
      have "k0 \<noteq> j" using that k0(2) by auto
      then show ?thesis by simp
    qed
    have off: "offends dims ?a j = offends dims s j" if "j \<in> set ks" for j
      using same [OF that] by (simp add: offends_def candidate_def)
    have ex: "list_ex (offends dims ?a) ks = list_ex (offends dims s) ks"
      using off by (auto simp: list_ex_iff)
    have tw: "takeWhile (\<lambda>j. \<not> offends dims ?a j) ks = takeWhile (\<lambda>j. \<not> offends dims s j) ks"
      using off by (intro takeWhile_cong) (auto dest: set_takeWhileD)
    have "\<forall>k\<in>set ks. k < length (particles ?a)" using Cons.prems(5) by simp
    from Cons.IH [of ?a, OF _ _ sh k0(3) this] Cons.prems(1,2)
    have ih: "raised (for_each (move_one U) ks ?a) =
        (if list_ex (offends dims s) ks then Some NotImplementedError else None)"
      "length (particles (final_state (for_each (move_one U) ks ?a))) = length (particles s)"
      "\<forall>k<length (particles s). particles (final_state (for_each (move_one U) ks ?a)) ! k =
        (if k \<in> set (takeWhile (\<lambda>j. \<not> offends dims s j) ks) \<and> \<not> frozen (particles ?a ! k)
         then update_position (particles ?a ! k) (candidate ?a (particles ?a ! k))
         else particles ?a ! k)"
      by (simp_all add: ex tw)
    have "particles (final_state (for_each (move_one U) ks ?a)) ! k =
        (if k \<in> set (takeWhile (\<lambda>j. \<not> offends dims s j) (k0 # ks)) \<and> \<not> frozen (particles s ! k)
         then update_position (particles s ! k) (candidate s (particles s ! k))
         else particles s ! k)" if k: "k < length (particles s)" for k
    proof (cases "k = k0")
      case True
      have "k0 \<notin> set (takeWhile (\<lambda>j. \<not> offends dims s j) ks)"
        using k0(2) by (auto dest: set_takeWhileD)
      then show ?thesis using ih(3) k True False k0(1) by simp
    next
      case ne: False
      have "k \<in> set (takeWhile (\<lambda>j. \<not> offends dims s j) ks) \<Longrightarrow> k \<in> set ks"
        by (auto dest: set_takeWhileD)
      then show ?thesis using ih(3) k ne False k0(1)
        by (auto simp: nth_list_update candidate_def)
    qed
    then show ?thesis using step ih(1,2) False by simp
  qed
qed

lemma takeWhile_upt_first:
  assumes "k < n" and "\<not> P k" and "\<forall>j<k. P j"
  shows "takeWhile P [0..<n] = [0..<k]"
proof -
  have "[0..<k + (n - k)] = [0..<k] @ [k..<k + (n - k)]"
    by (rule upt_add_eq_append) simp
  then have "[0..<n] = [0..<k] @ k # [Suc k..<n]"
    using assms(1) by (simp add: upt_conv_Cons)
  moreover have "takeWhile P ([0..<k] @ k # [Suc k..<n]) = [0..<k]"
    using assms(2,3) by (subst takeWhile_append2) auto
  ultimately show ?thesis by simp
qed

text \<open>
  C4, as amended. Under \<^verbatim>\<open>BOUNCE\<close>, in a swarm whose vectors have a coordinate for every
  dimension, the move phase raises \<^verbatim>\<open>NotImplementedError\<close> exactly when the candidate of
  some moving particle has a coordinate outside its bounds, and no other exception. It
  never writes a velocity. When it raises, it does so at the first such particle of the
  swarm: the moving particles before it are at their candidates, that particle and the
  particles after it are as they were before the move phase. When no candidate leaves the
  bounds the phase returns with every moving particle at its candidate. A position is
  thus never anything but the old position or the candidate: the reflection is not
  computed.
\<close>

theorem bounce_raises_at_first_leaving_candidate:
  assumes pol: "boundary_policy s = BOUNCE"
    and dims: "search_dimension s = Some dims"
    and shape: "shaped (length dims) s"
  shows "raised (move_particles U s) =
           (if list_ex (offends dims s) [0..<length (particles s)] then Some NotImplementedError else None) \<and>
         map velocity (particles (final_state (move_particles U s))) = map velocity (particles s) \<and>
         (\<forall>k<length (particles s). offends dims s k \<and> (\<forall>j<k. \<not> offends dims s j) \<longrightarrow>
            (\<forall>i<length (particles s). particles (final_state (move_particles U s)) ! i =
               (if i < k \<and> \<not> frozen (particles s ! i)
                then update_position (particles s ! i) (candidate s (particles s ! i))
                else particles s ! i))) \<and>
         (\<not> list_ex (offends dims s) [0..<length (particles s)] \<longrightarrow>
            (\<forall>i<length (particles s). particles (final_state (move_particles U s)) ! i =
               (if \<not> frozen (particles s ! i)
                then update_position (particles s ! i) (candidate s (particles s ! i))
                else particles s ! i)))"
proof -
  let ?n = "length (particles s)"
  let ?s' = "final_state (move_particles U s)"
  from bounce_loop [OF dims pol shape, of "[0..<?n]" U]
  have r: "raised (move_particles U s) =
      (if list_ex (offends dims s) [0..<?n] then Some NotImplementedError else None)"
    and p: "\<forall>k<?n. particles ?s' ! k =
      (if k \<in> set (takeWhile (\<lambda>j. \<not> offends dims s j) [0..<?n]) \<and> \<not> frozen (particles s ! k)
       then update_position (particles s ! k) (candidate s (particles s ! k))
       else particles s ! k)"
    by (simp_all add: move_particles_def)
  have v: "map velocity (particles ?s') = map velocity (particles s)"
    using move_particles_frame [of s U]
    by (auto intro: list_all2_map_eq [symmetric] simp: position_only_def)
  have first: "\<forall>i<?n. particles ?s' ! i =
               (if i < k \<and> \<not> frozen (particles s ! i)
                then update_position (particles s ! i) (candidate s (particles s ! i))
                else particles s ! i)"
    if "k < ?n" "offends dims s k" "\<forall>j<k. \<not> offends dims s j" for k
  proof -
    have "takeWhile (\<lambda>j. \<not> offends dims s j) [0..<?n] = [0..<k]"
      using that by (intro takeWhile_upt_first) auto
    with p show ?thesis by simp
  qed
  have none: "\<forall>i<?n. particles ?s' ! i =
               (if \<not> frozen (particles s ! i)
                then update_position (particles s ! i) (candidate s (particles s ! i))
                else particles s ! i)"
    if "\<not> list_ex (offends dims s) [0..<?n]"
  proof -
    have "takeWhile (\<lambda>j. \<not> offends dims s j) [0..<?n] = [0..<?n]"
      using that by (simp add: list_ex_iff takeWhile_eq_all_conv)
    with p show ?thesis by simp
  qed
  show ?thesis using r v first none by blast
qed

text \<open>
  The small swarm with step size 100, in the move phase of its first iteration: the
  candidate of the first particle leaves \<open>(0, 1)\<close>, the phase raises, and both particles are
  where they were, with the velocities the velocity update gave them.
\<close>

theorem bounce_raises_at_first_leaving_candidate_witness:
  "raised (move_particles example_draws (example_before_move (0, 1) 100 BOUNCE)) = Some NotImplementedError \<and>
   map velocity (particles (final_state (move_particles example_draws (example_before_move (0, 1) 100 BOUNCE)))) =
     [[- (11 / 192)], [11 / 200]] \<and>
   position (particles (final_state (move_particles example_draws (example_before_move (0, 1) 100 BOUNCE))) ! 0) =
     [1 / 2] \<and>
   position (particles (final_state (move_particles example_draws (example_before_move (0, 1) 100 BOUNCE))) ! 1) =
     [1 / 4]"
proof -
  let ?s = "example_before_move (0, 1) 100 BOUNCE"
  have pol: "boundary_policy ?s = BOUNCE" by code_simp
  have dims: "search_dimension ?s = Some [(0, 1)]" by code_simp
  have shape: "shaped (length [(0 :: real, 1 :: real)]) ?s" by code_simp
  have e: "list_ex (offends [(0, 1)] ?s) [0..<length (particles ?s)]" by code_simp
  have o: "0 < length (particles ?s)" "1 < length (particles ?s)" "offends [(0, 1)] ?s 0" by code_simp+
  have v: "map velocity (particles ?s) = [[- (11 / 192)], [11 / 200]]"
    "position (particles ?s ! 0) = [1 / 2]" "position (particles ?s ! 1) = [1 / 4]"
    by code_simp+
  note inst = bounce_raises_at_first_leaving_candidate [OF pol dims shape, of example_draws]
  from inst e have r: "raised (move_particles example_draws ?s) = Some NotImplementedError"
    by simp
  from inst have m: "map velocity (particles (final_state (move_particles example_draws ?s))) =
      map velocity (particles ?s)"
    by simp
  from inst o(1,3) have "\<forall>i<length (particles ?s).
      particles (final_state (move_particles example_draws ?s)) ! i = particles ?s ! i"
    by force
  then have "particles (final_state (move_particles example_draws ?s)) ! 0 = particles ?s ! 0"
    "particles (final_state (move_particles example_draws ?s)) ! 1 = particles ?s ! 1"
    using o(1,2) by blast+
  then show ?thesis using r m v by simp
qed

text \<open>
  C4 as stated fails twice. With step size 100 the run raises \<^verbatim>\<open>NotImplementedError\<close>, but
  in the move phase, after the velocity update of the same iteration: the velocities at
  that point are not those the run started with. With step size 1/10 no candidate leaves
  the bounds, the run under \<^verbatim>\<open>BOUNCE\<close> returns without an exception, and the particles have
  moved.
\<close>

theorem bounce_run_counterexample:
  "raised (run example_draws example_perm (example_config (0, 1) 100 BOUNCE)) = Some NotImplementedError \<and>
   map velocity (particles (example_swarm (0, 1) 100 BOUNCE)) = [[1 / 3], [1 / 5]] \<and>
   map velocity (particles (final_state (run example_draws example_perm (example_config (0, 1) 100 BOUNCE)))) =
     [[- (11 / 192)], [11 / 200]] \<and>
   raised (run example_draws example_perm (example_config (0, 1) (1 / 10) BOUNCE)) = None \<and>
   map position (particles (example_swarm (0, 1) (1 / 10) BOUNCE)) = [[1 / 2], [1 / 4]] \<and>
   map position (particles (final_state (run example_draws example_perm (example_config (0, 1) (1 / 10) BOUNCE)))) =
     [[949 / 1920], [511 / 2000]]"
  by code_simp

section \<open>The velocity update\<close>

lemma for_each_local_ok:
  assumes step: "\<And>a k a'. C a \<Longrightarrow> k < length (particles a) \<Longrightarrow> body a k = Inr a' \<Longrightarrow>
      C a' \<and> particles a' = (particles a)[k := F (particles a ! k) (rng_pos a)] \<and>
      rng_pos a' = rng_pos a + N (particles a ! k) \<and> G (particles a ! k) (rng_pos a)"
  shows "C s \<Longrightarrow> for_each body ks s = Inr s' \<Longrightarrow> distinct ks \<Longrightarrow>
         \<forall>k\<in>set ks. k < length (particles s) \<Longrightarrow>
     \<forall>k\<in>set ks. G (particles s ! k)
        (rng_pos s + sum_list (map (\<lambda>j. N (particles s ! j)) (takeWhile (\<lambda>j. j \<noteq> k) ks)))"
proof (induction ks arbitrary: s)
  case Nil
  then show ?case by simp
next
  case (Cons k0 ks)
  from Cons.prems(2) obtain a1 where b: "body s k0 = Inr a1" and f: "for_each body ks a1 = Inr s'"
    by (auto split: sum.splits)
  have k0: "k0 < length (particles s)" "k0 \<notin> set ks" "distinct ks"
    using Cons.prems(3,4) by simp_all
  from step [OF Cons.prems(1) k0(1) b] have c1: "C a1"
    and p1: "particles a1 = (particles s)[k0 := F (particles s ! k0) (rng_pos s)]"
    and r1: "rng_pos a1 = rng_pos s + N (particles s ! k0)"
    and g1: "G (particles s ! k0) (rng_pos s)"
    by simp_all
  have same: "particles a1 ! j = particles s ! j" if "j \<in> set ks" for j
  proof -
    have "k0 \<noteq> j" using that k0(2) by auto
    then show ?thesis using p1 by simp
  qed
  have "\<forall>k\<in>set ks. k < length (particles a1)" using Cons.prems(4) p1 by simp
  from Cons.IH [OF c1 f k0(3) this]
  have ih: "\<forall>k\<in>set ks. G (particles a1 ! k)
        (rng_pos a1 + sum_list (map (\<lambda>j. N (particles a1 ! j)) (takeWhile (\<lambda>j. j \<noteq> k) ks)))" .
  have sum_eq: "sum_list (map (\<lambda>j. N (particles a1 ! j)) xs) = sum_list (map (\<lambda>j. N (particles s ! j)) xs)"
    if "set xs \<subseteq> set ks" for xs
    using that same by (intro arg_cong [where f = sum_list] map_cong) auto
  have tw: "set (takeWhile P ks) \<subseteq> set ks" for P by (auto dest: set_takeWhileD)
  show ?case
  proof
    fix k assume k: "k \<in> set (k0 # ks)"
    show "G (particles s ! k)
        (rng_pos s + sum_list (map (\<lambda>j. N (particles s ! j)) (takeWhile (\<lambda>j. j \<noteq> k) (k0 # ks))))"
    proof (cases "k = k0")
      case True
      then show ?thesis using g1 by simp
    next
      case False
      then have "k \<in> set ks" using k by simp
      then show ?thesis
        using ih False r1 same sum_eq [OF tw, of "\<lambda>j. j \<noteq> k"] by (auto simp: add.assoc)
    qed
  qed
qed

lemma informant_scan_cong:
  "map fitness_loc ps' = map fitness_loc ps \<Longrightarrow> informant_scan ps' js acc = informant_scan ps js acc"
proof (induction js arbitrary: acc)
  case Nil
  show ?case by simp
next
  case (Cons j js)
  have l: "length ps' = length ps" using Cons.prems by (rule map_eq_imp_length_eq)
  have "fitness_loc (ps' ! j) = fitness_loc (ps ! j)" if "j < length ps"
    using that l Cons.prems by (metis nth_map)
  then show ?case using l Cons.IH [OF Cons.prems] by (simp split: option.splits)
qed

lemma velocity_component_cong:
  "alpha a = alpha s \<Longrightarrow> best a = best s \<Longrightarrow>
   velocity_component a p ib v i b c d = velocity_component s p ib v i b c d"
  by (simp add: velocity_component_def cong: sum.case_cong option.case_cong)

lemma velocity_loop_cong:
  "alpha a = alpha s \<Longrightarrow> beta a = beta s \<Longrightarrow> gamma a = gamma s \<Longrightarrow> delta a = delta s \<Longrightarrow>
   best a = best s \<Longrightarrow> velocity_loop U a p ib js v r = velocity_loop U s p ib js v r"
  by (induction js arbitrary: v r)
    (simp_all add: velocity_component_cong [of a s] cong: sum.case_cong)

lemma velocity_component_update:
  "i \<noteq> j \<Longrightarrow> velocity_component s p ib (v[i := x]) j b c d = velocity_component s p ib v j b c d"
  by (simp add: velocity_component_def getitem_def)

lemma velocity_component_Inr:
  "velocity_component s p ib v i b c d = Inr y \<Longrightarrow>
     i < length v \<and>
     (\<exists>pb g. personal_fittest_loc p = Some pb \<and> best s = Some g \<and>
        i < length (location pb) \<and> i < length (position p) \<and> i < length (location ib) \<and>
        i < length (location g) \<and>
        y = alpha s * v ! i + b * (location pb ! i - position p ! i) +
            c * (location ib ! i - position p ! i) + d * (location g ! i - position p ! i))"
  by (auto simp: velocity_component_def getitem_def split: sum.splits option.splits if_splits)

lemma velocity_loop_components:
  "velocity_loop U s p ib js v r = Inr (v', r') \<Longrightarrow> distinct js \<Longrightarrow>
     (\<forall>m<length js.
        velocity_component s p ib v (js ! m) (uniform 0 (beta s) (U (r + 3 * m)))
          (uniform 0 (gamma s) (U (r + 3 * m + 1))) (uniform 0 (delta s) (U (r + 3 * m + 2))) =
        Inr (v' ! (js ! m))) \<and>
     (\<forall>j. j \<notin> set js \<longrightarrow> v' ! j = v ! j)"
proof (induction js arbitrary: v r)
  case Nil
  then show ?case by simp
next
  case (Cons i js)
  let ?b = "uniform 0 (beta s) (U r)" and ?c = "uniform 0 (gamma s) (U (r + 1))"
    and ?d = "uniform 0 (delta s) (U (r + 2))"
  from Cons.prems(1) obtain x where x: "velocity_component s p ib v i ?b ?c ?d = Inr x"
    and l: "velocity_loop U s p ib js (v[i := x]) (r + 3) = Inr (v', r')"
    by (auto simp: Let_def split: sum.splits)
  have i: "i \<notin> set js" "distinct js" using Cons.prems(2) by simp_all
  have iv: "i < length v" using velocity_component_Inr [OF x] by simp
  from Cons.IH [OF l i(2)]
  have ih: "\<forall>m<length js.
        velocity_component s p ib (v[i := x]) (js ! m) (uniform 0 (beta s) (U (r + 3 + 3 * m)))
          (uniform 0 (gamma s) (U (r + 3 + 3 * m + 1))) (uniform 0 (delta s) (U (r + 3 + 3 * m + 2))) =
        Inr (v' ! (js ! m))"
    and un: "\<forall>j. j \<notin> set js \<longrightarrow> v' ! j = v[i := x] ! j"
    by simp_all
  have "velocity_component s p ib v ((i # js) ! m) (uniform 0 (beta s) (U (r + 3 * m)))
          (uniform 0 (gamma s) (U (r + 3 * m + 1))) (uniform 0 (delta s) (U (r + 3 * m + 2))) =
        Inr (v' ! ((i # js) ! m))" if m: "m < length (i # js)" for m
  proof (cases m)
    case 0
    then show ?thesis using x un i(1) iv by simp
  next
    case (Suc m')
    then have m': "m' < length js" using m by simp
    then have ne: "i \<noteq> js ! m'" using i(1) by auto
    have "r + 3 + 3 * m' = r + 3 * m" using Suc by simp
    then show ?thesis
      using ih [rule_format, OF m'] Suc velocity_component_update [OF ne, of s p ib v x]
      by (simp add: add.assoc)
  qed
  moreover have "\<forall>j. j \<notin> set (i # js) \<longrightarrow> v' ! j = v ! j" using un by auto
  ultimately show ?case by blast
qed

lemma informant_scan_fittest:
  "informant_scan ps js acc = Inr ib \<Longrightarrow>
     fitness acc \<le> fitness ib \<and>
     (\<forall>n<length js. \<exists>fl. fitness_loc (ps ! (js ! n)) = Some fl \<and> fitness fl \<le> fitness ib) \<and>
     (ib = acc \<or>
      (\<exists>m<length js. fitness_loc (ps ! (js ! m)) = Some ib \<and> fitness acc < fitness ib \<and>
         (\<forall>n<m. \<forall>fl. fitness_loc (ps ! (js ! n)) = Some fl \<longrightarrow> fitness fl < fitness ib)))"
proof (induction js arbitrary: acc)
  case Nil
  then show ?case by simp
next
  case (Cons j js)
  from Cons.prems obtain fl where fl: "fitness_loc (ps ! j) = Some fl"
    and sc: "informant_scan ps js (if FitnessLoc_lt acc fl then fl else acc) = Inr ib"
    by (auto split: if_splits option.splits)
  let ?acc = "if FitnessLoc_lt acc fl then fl else acc"
  have a: "fitness acc \<le> fitness ?acc" "fitness fl \<le> fitness ?acc"
    by (simp_all add: FitnessLoc_lt_def)
  from Cons.IH [OF sc]
  have le: "fitness ?acc \<le> fitness ib"
    and all: "\<forall>n<length js. \<exists>fl. fitness_loc (ps ! (js ! n)) = Some fl \<and> fitness fl \<le> fitness ib"
    and who: "ib = ?acc \<or>
      (\<exists>m<length js. fitness_loc (ps ! (js ! m)) = Some ib \<and> fitness ?acc < fitness ib \<and>
         (\<forall>n<m. \<forall>fl. fitness_loc (ps ! (js ! n)) = Some fl \<longrightarrow> fitness fl < fitness ib))"
    by simp_all
  have 1: "fitness acc \<le> fitness ib" using a(1) le by simp
  have 2: "\<exists>fl. fitness_loc (ps ! ((j # js) ! n)) = Some fl \<and> fitness fl \<le> fitness ib"
    if "n < length (j # js)" for n
    using that fl a(2) le all by (cases n) auto
  have 3: "ib = acc \<or>
      (\<exists>m<length (j # js). fitness_loc (ps ! ((j # js) ! m)) = Some ib \<and> fitness acc < fitness ib \<and>
         (\<forall>n<m. \<forall>fl. fitness_loc (ps ! ((j # js) ! n)) = Some fl \<longrightarrow> fitness fl < fitness ib))"
    using who
  proof
    assume e: "ib = ?acc"
    show ?thesis
    proof (cases "FitnessLoc_lt acc fl")
      case True
      then have "fitness_loc (ps ! ((j # js) ! 0)) = Some ib \<and> fitness acc < fitness ib"
        using e fl by (simp add: FitnessLoc_lt_def)
      then show ?thesis by (intro disjI2 exI [of _ 0]) simp
    next
      case False
      then show ?thesis using e by simp
    qed
  next
    assume "\<exists>m<length js. fitness_loc (ps ! (js ! m)) = Some ib \<and> fitness ?acc < fitness ib \<and>
         (\<forall>n<m. \<forall>fl. fitness_loc (ps ! (js ! n)) = Some fl \<longrightarrow> fitness fl < fitness ib)"
    then obtain m where m: "m < length js" "fitness_loc (ps ! (js ! m)) = Some ib"
      "fitness ?acc < fitness ib"
      "\<forall>n<m. \<forall>fl. fitness_loc (ps ! (js ! n)) = Some fl \<longrightarrow> fitness fl < fitness ib"
      by blast
    have "\<forall>n<Suc m. \<forall>fl'. fitness_loc (ps ! ((j # js) ! n)) = Some fl' \<longrightarrow> fitness fl' < fitness ib"
    proof (intro allI impI)
      fix n fl' assume n: "n < Suc m" and f: "fitness_loc (ps ! ((j # js) ! n)) = Some fl'"
      show "fitness fl' < fitness ib"
      proof (cases n)
        case 0
        then show ?thesis using f fl a(2) m(3) by simp
      next
        case (Suc n')
        then show ?thesis using f n m(4) by simp
      qed
    qed
    moreover have "fitness acc < fitness ib" using a(1) m(3) by simp
    ultimately show ?thesis using m(1,2) by (intro disjI2 exI [of _ "Suc m"]) simp
  qed
  show ?case using 1 2 3 by blast
qed

lemma update_one_new:
  assumes sd: "search_dimension a = Some dims"
    and moving: "\<not> frozen (particles a ! j)"
    and one: "update_one U a j = Inr a'"
  shows "\<exists>v. new_velocity U a (length dims) (particles a ! j) (rng_pos a) = Inr v \<and>
     a' = a\<lparr>particles := (particles a)[j :=
            (particles a ! j)\<lparr>velocity_list := velocity_list (particles a ! j) @ [v], velocity := v\<rparr>],
          rng_pos := rng_pos a + 3 * length dims\<rparr>"
proof -
  let ?p = "particles a ! j"
  obtain ib where ib: "informant_scan (particles a) (informants ?p) sentinel = Inr ib"
    using one moving
    by (cases "informant_scan (particles a) (informants ?p) sentinel")
      (simp_all add: update_one_def Let_def)
  obtain v r where v: "velocity_loop U a ?p ib [0..<length dims] (velocity ?p) (rng_pos a) = Inr (v, r)"
  proof (cases "velocity_loop U a ?p ib [0..<length dims] (velocity ?p) (rng_pos a)")
    case (Inl x)
    then have False using one moving ib sd
      by (cases x) (simp add: update_one_def Let_def split: prod.splits)
    then show ?thesis ..
  next
    case (Inr y)
    then show ?thesis using that by (cases y) simp
  qed
  have r: "r = rng_pos a + 3 * length dims" using velocity_loop_Inr_length [OF v] by simp
  have "a' = a\<lparr>particles := (particles a)[j := update_velocity (?p\<lparr>velocity_list := velocity_list ?p @ [v]\<rparr>) v],
       rng_pos := r\<rparr>"
    using one moving ib sd v by (simp add: update_one_def Let_def)
  moreover have "new_velocity U a (length dims) ?p (rng_pos a) = Inr v"
    using ib v by (simp add: new_velocity_def)
  ultimately show ?thesis using r by (simp add: update_velocity_def)
qed

lemma new_velocity_cong:
  assumes "same_config s a" and "best a = best s"
    and "map fitness_loc (particles a) = map fitness_loc (particles s)"
  shows "new_velocity U a D p r = new_velocity U s D p r"
proof -
  have "informant_scan (particles a) js sentinel = informant_scan (particles s) js sentinel" for js
    using assms(3) by (rule informant_scan_cong)
  moreover have "velocity_loop U a p ib js v r = velocity_loop U s p ib js v r" for ib js v
    using assms(1,2) by (intro velocity_loop_cong) (simp_all add: same_config_def)
  ultimately show ?thesis by (simp add: new_velocity_def cong: sum.case_cong)
qed

lemma update_one_step:
  assumes dims: "search_dimension s = Some dims"
    and c: "same_config s a \<and> best a = best s \<and>
      map fitness_loc (particles a) = map fitness_loc (particles s)"
    and one: "update_one U a j = Inr a'"
  shows "(same_config s a' \<and> best a' = best s \<and>
      map fitness_loc (particles a') = map fitness_loc (particles s)) \<and>
     particles a' = (particles a)[j :=
        (if frozen (particles a ! j) then particles a ! j
         else case new_velocity U s (length dims) (particles a ! j) (rng_pos a) of
           Inl e \<Rightarrow> particles a ! j
         | Inr v \<Rightarrow> (particles a ! j)\<lparr>velocity_list := velocity_list (particles a ! j) @ [v],
                                        velocity := v\<rparr>)] \<and>
     rng_pos a' = rng_pos a + (if frozen (particles a ! j) then 0 else 3 * length dims) \<and>
     (frozen (particles a ! j) \<or>
      (\<exists>v. new_velocity U s (length dims) (particles a ! j) (rng_pos a) = Inr v))"
proof (cases "frozen (particles a ! j)")
  case True
  then have "a' = a" using one by (simp add: update_one_def)
  then show ?thesis using c True by simp
next
  case False
  have sd: "search_dimension a = Some dims" using c dims by (simp add: same_config_def)
  from update_one_new [OF sd False one] obtain v where
    v: "new_velocity U a (length dims) (particles a ! j) (rng_pos a) = Inr v"
    and a': "a' = a\<lparr>particles := (particles a)[j :=
            (particles a ! j)\<lparr>velocity_list := velocity_list (particles a ! j) @ [v], velocity := v\<rparr>],
          rng_pos := rng_pos a + 3 * length dims\<rparr>"
    by blast
  have v': "new_velocity U s (length dims) (particles a ! j) (rng_pos a) = Inr v"
    using v new_velocity_cong [of s a U] c by simp
  have m: "map fitness_loc (particles a') = map fitness_loc (particles a)"
    using a' by (simp add: map_update_same)
  have sc: "same_config s a'" using c a' by (simp add: same_config_def)
  have b: "best a' = best s" using c a' by simp
  have p: "particles a' = (particles a)[j :=
            (particles a ! j)\<lparr>velocity_list := velocity_list (particles a ! j) @ [v], velocity := v\<rparr>]"
    using a' by simp
  have r: "rng_pos a' = rng_pos a + 3 * length dims" using a' by simp
  show ?thesis using False v' m sc b p r c by simp
qed

lemma update_particle_local:
  assumes ok: "update_particle U s = Inr s'"
    and dims: "search_dimension s = Some dims"
    and k: "k < length (particles s)"
    and moving: "\<not> frozen (particles s ! k)"
  shows "new_velocity U s (length dims) (particles s ! k)
           (rng_pos s + 3 * length dims * moving_before s k) =
         Inr (velocity (particles s' ! k))"
proof -
  let ?D = "length dims"
  let ?C = "\<lambda>a. same_config s a \<and> best a = best s \<and>
      map fitness_loc (particles a) = map fitness_loc (particles s)"
  let ?F = "\<lambda>p r. if frozen p then p
     else case new_velocity U s ?D p r of Inl e \<Rightarrow> p
          | Inr v \<Rightarrow> p\<lparr>velocity_list := velocity_list p @ [v], velocity := v\<rparr>"
  let ?N = "\<lambda>p. if frozen p then 0 else 3 * ?D"
  let ?G = "\<lambda>p r. frozen p \<or> (\<exists>v. new_velocity U s ?D p r = Inr v)"
  let ?ks = "[0..<length (particles s)]"
  have step: "?C a' \<and> particles a' = (particles a)[j := ?F (particles a ! j) (rng_pos a)] \<and>
      rng_pos a' = rng_pos a + ?N (particles a ! j) \<and> ?G (particles a ! j) (rng_pos a)"
    if "?C a" and "j < length (particles a)" and "update_one U a j = Inr a'" for a j a'
    using update_one_step [OF dims that(1,3)] .
  have step': "?C a' \<and> particles a' = (particles a)[j := ?F (particles a ! j) (rng_pos a)] \<and>
      rng_pos a' = rng_pos a + ?N (particles a ! j)"
    if "?C a" and "j < length (particles a)" and "update_one U a j = Inr a'" for a j a'
    using step [OF that] by blast
  have c0: "?C s" by (simp add: same_config_def)
  have f: "for_each (update_one U) ?ks s = Inr s'" using ok by (simp add: update_particle_def)
  have d: "distinct ?ks" "\<forall>j\<in>set ?ks. j < length (particles s)" by simp_all
  have loc: "?C s' \<and> length (particles s') = length (particles s) \<and>
     rng_pos s' = rng_pos s + sum_list (map (\<lambda>j. ?N (particles s ! j)) ?ks) \<and>
     (\<forall>i<length (particles s). particles s' ! i =
        (if i \<in> set ?ks
         then ?F (particles s ! i)
               (rng_pos s + sum_list (map (\<lambda>j. ?N (particles s ! j)) (takeWhile (\<lambda>j. j \<noteq> i) ?ks)))
         else particles s ! i))"
  proof (rule for_each_local [where C = ?C and body = "update_one U" and F = ?F and N = ?N])
    fix a j a' assume "?C a" "j < length (particles a)" "update_one U a j = Inr a'"
    then show "?C a' \<and> particles a' = (particles a)[j := ?F (particles a ! j) (rng_pos a)] \<and>
      rng_pos a' = rng_pos a + ?N (particles a ! j)"
      by (rule step')
  qed (use c0 f d in simp_all)
  have g: "\<forall>i\<in>set ?ks. ?G (particles s ! i)
        (rng_pos s + sum_list (map (\<lambda>j. ?N (particles s ! j)) (takeWhile (\<lambda>j. j \<noteq> i) ?ks)))"
  proof (rule for_each_local_ok [where C = ?C and body = "update_one U" and F = ?F and N = ?N
        and G = ?G])
    fix a j a' assume "?C a" "j < length (particles a)" "update_one U a j = Inr a'"
    then show "?C a' \<and> particles a' = (particles a)[j := ?F (particles a ! j) (rng_pos a)] \<and>
      rng_pos a' = rng_pos a + ?N (particles a ! j) \<and> ?G (particles a ! j) (rng_pos a)"
      by (rule step)
  qed (use c0 f d in simp_all)
  have off: "sum_list (map (\<lambda>j. ?N (particles s ! j)) (takeWhile (\<lambda>j. j \<noteq> k) ?ks)) =
      3 * ?D * moving_before s k"
    using k by (simp add: takeWhile_upt sum_list_moving moving_before_def)
  let ?r = "rng_pos s + 3 * ?D * moving_before s k"
  have "k \<in> set ?ks" using k by simp
  from g [rule_format, OF this] have "?G (particles s ! k) ?r"
    unfolding off .
  with moving obtain v where v: "new_velocity U s ?D (particles s ! k) ?r = Inr v"
    by blast
  have "particles s' ! k = ?F (particles s ! k)
      (rng_pos s + sum_list (map (\<lambda>j. ?N (particles s ! j)) (takeWhile (\<lambda>j. j \<noteq> k) ?ks)))"
    using loc k by simp
  then have "particles s' ! k = ?F (particles s ! k) ?r"
    unfolding off .
  then have "velocity (particles s' ! k) = v" using v moving by simp
  with v show ?thesis by simp
qed

text \<open>
  The phase returns when it finds its operands: the swarm has a best, and every particle is
  frozen or has its vectors, its personal best and a fittest informant, each with a
  coordinate for every dimension.
\<close>

lemma velocity_loop_returns:
  assumes "personal_fittest_loc p = Some pb" and "best s = Some g"
    and "\<forall>i\<in>set js. i < length (location pb) \<and> i < length (position p) \<and>
          i < length (location ib) \<and> i < length (location g)"
  shows "\<forall>i\<in>set js. i < length v \<Longrightarrow> \<exists>v' r'. velocity_loop U s p ib js v r = Inr (v', r')"
  using assms(3)
proof (induction js arbitrary: v r)
  case Nil
  show ?case by simp
next
  case (Cons i js)
  let ?b = "uniform 0 (beta s) (U r)" and ?c = "uniform 0 (gamma s) (U (r + 1))"
    and ?d = "uniform 0 (delta s) (U (r + 2))"
  obtain x where x: "velocity_component s p ib v i ?b ?c ?d = Inr x"
    using Cons.prems assms(1,2) by (simp add: velocity_component_def getitem_def)
  have "\<forall>j\<in>set js. j < length (v[i := x])" using Cons.prems(1) by simp
  from Cons.IH [OF this, of "r + 3"] Cons.prems(2)
  obtain v' r' where "velocity_loop U s p ib js (v[i := x]) (r + 3) = Inr (v', r')"
    by auto
  then show ?case using x by (simp add: Let_def)
qed

lemma update_one_returns:
  assumes dims: "search_dimension a = Some dims"
    and g: "best a = Some g" "length dims \<le> length (location g)"
    and rdy: "ready a (length dims) (particles a ! j)"
  shows "\<exists>a'. update_one U a j = Inr a'"
proof (cases "frozen (particles a ! j)")
  case True
  then show ?thesis by (simp add: update_one_def)
next
  case False
  let ?p = "particles a ! j"
  from rdy False obtain pb ib where
    l: "length dims \<le> length (velocity ?p)" "length dims \<le> length (position ?p)"
    and pb: "personal_fittest_loc ?p = Some pb" "length dims \<le> length (location pb)"
    and ib: "informant_scan (particles a) (informants ?p) sentinel = Inr ib"
      "length dims \<le> length (location ib)"
    by (auto simp: ready_def split: option.splits sum.splits)
  have "\<exists>v' r'. velocity_loop U a ?p ib [0..<length dims] (velocity ?p) (rng_pos a) = Inr (v', r')"
    using l pb(2) ib(2) g(2)
    by (intro velocity_loop_returns [OF pb(1) g(1)]) auto
  then obtain v' r' where
    "velocity_loop U a ?p ib [0..<length dims] (velocity ?p) (rng_pos a) = Inr (v', r')"
    by blast
  then show ?thesis using False ib(1) dims by (simp add: update_one_def Let_def)
qed

lemma update_one_ready:
  assumes "list_all (ready a D) (particles a)"
  shows "list_all (ready (final_state (update_one U a j)) D) (particles (final_state (update_one U a j)))"
proof -
  let ?a' = "final_state (update_one U a j)"
  have fr: "list_all2 velocity_only (particles a) (particles ?a')"
    using update_one_frame [of a U j] by simp
  have len: "length (particles ?a') = length (particles a)"
    using fr by (simp add: list_all2_lengthD)
  have "map fitness_loc (particles a) = map fitness_loc (particles ?a')"
    using fr by (rule list_all2_map_eq) (simp add: velocity_only_def)
  then have sc: "informant_scan (particles ?a') js sentinel = informant_scan (particles a) js sentinel" for js
    by (intro informant_scan_cong) simp
  have "ready ?a' D (particles ?a' ! i)" if i: "i < length (particles a)" for i
  proof (cases "frozen (particles a ! i)")
    case True
    then have "particles ?a' ! i = particles a ! i" by (rule update_one_frozen)
    then show ?thesis using True by (simp add: ready_def)
  next
    case False
    have r: "ready a D (particles a ! i)" using assms i by (simp add: list_all_length)
    have v: "velocity_only (particles a ! i) (particles ?a' ! i)"
      using fr i by (rule list_all2_nthD)
    show ?thesis using r False v sc by (auto simp: ready_def velocity_only_def)
  qed
  then show ?thesis using len by (simp add: list_all_length)
qed

lemma update_particle_returns:
  assumes dims: "search_dimension s = Some dims"
    and g: "best s = Some g" "length dims \<le> length (location g)"
    and rdy: "list_all (ready s (length dims)) (particles s)"
  shows "\<exists>s'. update_particle U s = Inr s'"
proof -
  let ?C = "\<lambda>a. search_dimension a = Some dims \<and> best a = Some g \<and>
      list_all (ready a (length dims)) (particles a)"
  have "\<exists>s'. for_each (update_one U) [0..<length (particles s)] s = Inr s' \<and> ?C s'"
  proof (rule for_each_succeeds [where C = ?C])
    fix a j assume c: "?C a" and j: "j < length (particles a)"
    then have "ready a (length dims) (particles a ! j)" by (simp add: list_all_length)
    from update_one_returns [OF _ _ g(2) this, of U] c
    obtain a' where a': "update_one U a j = Inr a'" by blast
    have "list_all (ready a' (length dims)) (particles a')"
      using update_one_ready [of a "length dims" U j] c a' by simp
    moreover have "search_dimension a' = Some dims \<and> best a' = Some g \<and>
        length (particles a') = length (particles a)"
      using update_one_frame [of a U j] c a'
      by (auto simp: same_config_def dest: list_all2_lengthD)
    ultimately show "\<exists>a'. update_one U a j = Inr a' \<and> ?C a' \<and>
        length (particles a') = length (particles a)"
      using a' by blast
  qed (use assms in simp_all)
  then show ?thesis by (auto simp: update_particle_def)
qed

text \<open>
  C1. Let the velocity-update phase return (by \<open>update_particle_returns\<close> it does when it
  finds its operands). For every particle that is not frozen and every dimension \<open>i\<close>, the
  new component of its velocity is
  \<open>alpha * v[i] + b * (pb[i] - x[i]) + c * (ib[i] - x[i]) + d * (g[i] - x[i])\<close>, where
  \<open>v\<close>, \<open>x\<close> and \<open>pb\<close> are the velocity, the position and the personal best of the particle
  and \<open>g\<close> the best of the swarm, all as the phase found them, and
  \<^item> \<open>b\<close>, \<open>c\<close>, \<open>d\<close> are \<^verbatim>\<open>uniform(0, beta)\<close>, \<^verbatim>\<open>uniform(0, gamma)\<close>, \<^verbatim>\<open>uniform(0, delta)\<close>
    of three consecutive draws of the generator, which no other dimension and no other
    particle reads: those at \<open>3 * i\<close>, \<open>3 * i + 1\<close>, \<open>3 * i + 2\<close> after the \<open>3 * D\<close> draws of
    each moving particle before this one;
  \<^item> \<open>ib\<close> is the \<open>fitness_loc\<close> of one of the informants of the particle, no informant is
    fitter, and the informants before it in the scan are strictly less fit (the first
    found is kept among equals).
\<close>

theorem velocity_update_formula:
  assumes ok: "update_particle U s = Inr s'"
    and dims: "search_dimension s = Some dims"
    and k: "k < length (particles s)"
    and moving: "\<not> frozen (particles s ! k)"
    and i: "i < length dims"
  shows "\<exists>pb ib g m.
     personal_fittest_loc (particles s ! k) = Some pb \<and> best s = Some g \<and>
     m < length (informants (particles s ! k)) \<and>
     fitness_loc (particles s ! (informants (particles s ! k) ! m)) = Some ib \<and>
     (\<forall>n<length (informants (particles s ! k)).
        \<exists>fl. fitness_loc (particles s ! (informants (particles s ! k) ! n)) = Some fl \<and>
          fitness fl \<le> fitness ib \<and> (n < m \<longrightarrow> fitness fl < fitness ib)) \<and>
     velocity (particles s' ! k) ! i =
       alpha s * velocity (particles s ! k) ! i +
       uniform 0 (beta s) (U (rng_pos s + 3 * length dims * moving_before s k + 3 * i)) *
         (location pb ! i - position (particles s ! k) ! i) +
       uniform 0 (gamma s) (U (rng_pos s + 3 * length dims * moving_before s k + 3 * i + 1)) *
         (location ib ! i - position (particles s ! k) ! i) +
       uniform 0 (delta s) (U (rng_pos s + 3 * length dims * moving_before s k + 3 * i + 2)) *
         (location g ! i - position (particles s ! k) ! i)"
proof -
  let ?p = "particles s ! k"
  let ?r = "rng_pos s + 3 * length dims * moving_before s k"
  let ?v' = "velocity (particles s' ! k)"
  have nv: "new_velocity U s (length dims) ?p ?r = Inr ?v'"
    using ok dims k moving by (rule update_particle_local)
  obtain ib where ib: "informant_scan (particles s) (informants ?p) sentinel = Inr ib"
    using nv by (cases "informant_scan (particles s) (informants ?p) sentinel")
      (simp_all add: new_velocity_def)
  obtain r' where vl: "velocity_loop U s ?p ib [0..<length dims] (velocity ?p) ?r = Inr (?v', r')"
    using nv ib
    by (cases "velocity_loop U s ?p ib [0..<length dims] (velocity ?p) ?r")
      (auto simp: new_velocity_def)
  from velocity_loop_components [OF vl] i
  have vc: "velocity_component s ?p ib (velocity ?p) i (uniform 0 (beta s) (U (?r + 3 * i)))
          (uniform 0 (gamma s) (U (?r + 3 * i + 1))) (uniform 0 (delta s) (U (?r + 3 * i + 2))) =
        Inr (?v' ! i)"
    by force
  from velocity_component_Inr [OF vc] obtain pb g where
    pb: "personal_fittest_loc ?p = Some pb" and g: "best s = Some g"
    and li: "i < length (location ib)"
    and eq: "?v' ! i = alpha s * velocity ?p ! i +
        uniform 0 (beta s) (U (?r + 3 * i)) * (location pb ! i - position ?p ! i) +
        uniform 0 (gamma s) (U (?r + 3 * i + 1)) * (location ib ! i - position ?p ! i) +
        uniform 0 (delta s) (U (?r + 3 * i + 2)) * (location g ! i - position ?p ! i)"
    by blast
  have ne: "ib \<noteq> sentinel" using li by (auto simp: sentinel_def)
  from informant_scan_fittest [OF ib] ne obtain m where
    m: "m < length (informants ?p)" "fitness_loc (particles s ! (informants ?p ! m)) = Some ib"
    and before: "\<forall>n<m. \<forall>fl. fitness_loc (particles s ! (informants ?p ! n)) = Some fl \<longrightarrow>
        fitness fl < fitness ib"
    and every: "\<forall>n<length (informants ?p).
        \<exists>fl. fitness_loc (particles s ! (informants ?p ! n)) = Some fl \<and> fitness fl \<le> fitness ib"
    by blast
  have "\<forall>n<length (informants ?p).
        \<exists>fl. fitness_loc (particles s ! (informants ?p ! n)) = Some fl \<and>
          fitness fl \<le> fitness ib \<and> (n < m \<longrightarrow> fitness fl < fitness ib)"
    using before every by blast
  with pb g m eq show ?thesis by blast
qed

lemma returned_outcome: "raised x = None \<Longrightarrow> x = Inr (final_state x)"
  by (cases x) auto

text \<open>
  The small swarm after the assessment of its first iteration: the update returns, the
  first particle moves, its informant is the second particle, and its velocity \<open>1/3\<close>
  becomes \<open>- 11/192\<close> by the formula, with the fifth to seventh draw of the stream.
\<close>

theorem velocity_update_formula_witness:
  "update_particle example_draws (final_state (pso_assess_fitness (example_swarm (0, 1) (1 / 10) REFUSE))) =
     Inr (example_before_move (0, 1) (1 / 10) REFUSE) \<and>
   \<not> frozen (particles (final_state (pso_assess_fitness (example_swarm (0, 1) (1 / 10) REFUSE))) ! 0) \<and>
   velocity (particles (final_state (pso_assess_fitness (example_swarm (0, 1) (1 / 10) REFUSE))) ! 0) = [1 / 3] \<and>
   velocity (particles (example_before_move (0, 1) (1 / 10) REFUSE) ! 0) ! 0 = - (11 / 192) \<and>
   (\<exists>pb ib g.
      personal_fittest_loc (particles (final_state (pso_assess_fitness
        (example_swarm (0, 1) (1 / 10) REFUSE))) ! 0) = Some pb \<and>
      best (final_state (pso_assess_fitness (example_swarm (0, 1) (1 / 10) REFUSE))) = Some g \<and>
      fitness_loc (particles (final_state (pso_assess_fitness
        (example_swarm (0, 1) (1 / 10) REFUSE))) ! 1) = Some ib \<and>
      velocity (particles (example_before_move (0, 1) (1 / 10) REFUSE) ! 0) ! 0 =
        1 / 10 * (1 / 3) +
        uniform 0 (13 / 10) (example_draws 4) * (location pb ! 0 - 1 / 2) +
        uniform 0 (14 / 10) (example_draws 5) * (location ib ! 0 - 1 / 2) +
        uniform 0 (13 / 10) (example_draws 6) * (location g ! 0 - 1 / 2))"
proof -
  let ?s = "final_state (pso_assess_fitness (example_swarm (0, 1) (1 / 10) REFUSE))"
  let ?s' = "example_before_move (0, 1) (1 / 10) REFUSE"
  have "raised (update_particle example_draws ?s) = None" by code_simp
  then have ok: "update_particle example_draws ?s = Inr ?s'"
    unfolding example_before_move_def by (rule returned_outcome)
  have dims: "search_dimension ?s = Some [(0, 1)]" by code_simp
  have k: "0 < length (particles ?s)" by code_simp
  have moving: "\<not> frozen (particles ?s ! 0)" by code_simp
  have i: "0 < length [(0 :: real, 1 :: real)]" by simp
  have e: "velocity (particles ?s ! 0) = [1 / 3]" "position (particles ?s ! 0) = [1 / 2]"
    "informants (particles ?s ! 0) = [1]" "alpha ?s = 1 / 10" "beta ?s = 13 / 10"
    "gamma ?s = 14 / 10" "delta ?s = 13 / 10" "rng_pos ?s = 4" "moving_before ?s 0 = 0"
    "velocity (particles ?s' ! 0) ! 0 = - (11 / 192)"
    by code_simp+
  from velocity_update_formula [OF ok dims k moving i]
  obtain pb ib g m where
    f: "personal_fittest_loc (particles ?s ! 0) = Some pb" "best ?s = Some g"
    "m < length (informants (particles ?s ! 0))"
    "fitness_loc (particles ?s ! (informants (particles ?s ! 0) ! m)) = Some ib"
    "velocity (particles ?s' ! 0) ! 0 =
       alpha ?s * velocity (particles ?s ! 0) ! 0 +
       uniform 0 (beta ?s) (example_draws (rng_pos ?s + 3 * length [(0 :: real, 1 :: real)] * moving_before ?s 0 + 3 * 0)) *
         (location pb ! 0 - position (particles ?s ! 0) ! 0) +
       uniform 0 (gamma ?s) (example_draws (rng_pos ?s + 3 * length [(0 :: real, 1 :: real)] * moving_before ?s 0 + 3 * 0 + 1)) *
         (location ib ! 0 - position (particles ?s ! 0) ! 0) +
       uniform 0 (delta ?s) (example_draws (rng_pos ?s + 3 * length [(0 :: real, 1 :: real)] * moving_before ?s 0 + 3 * 0 + 2)) *
         (location g ! 0 - position (particles ?s ! 0) ! 0)"
    by blast
  have m0: "m = 0" using f(3) e(3) by simp
  have "fitness_loc (particles ?s ! 1) = Some ib" using f(4) m0 e(3) by simp
  moreover have "velocity (particles ?s' ! 0) ! 0 =
        1 / 10 * (1 / 3) +
        uniform 0 (13 / 10) (example_draws 4) * (location pb ! 0 - 1 / 2) +
        uniform 0 (14 / 10) (example_draws 5) * (location ib ! 0 - 1 / 2) +
        uniform 0 (13 / 10) (example_draws 6) * (location g ! 0 - 1 / 2)"
    using f(5) by (simp only: e) simp
  ultimately show ?thesis using ok moving e(1,10) f(1,2) by blast
qed

end
